theory Spec2Isabelle
  imports Main "HOL-Library.Word" "HOL-Library.Monad_Syntax"
begin

unbundle bit_operations_syntax

section \<open>Data model of gcov_gcc.c\<close>

text \<open>
  \<^verbatim>\<open>gcov_unsigned_t\<close> is the 32-bit word of the gcda format and \<^verbatim>\<open>gcov_type\<close> the
  64-bit counter. Both typedefs live in gcov_gcc.h; their widths are the ones the
  format description fixes (32-bit fields, 64-bit counter values). A counter is kept
  as a bit pattern: the two words the encoder stores are the same whether the C
  type is signed or unsigned, because each half is truncated to 32 bits.
\<close>

type_synonym gcov_unsigned_t = "32 word"
type_synonym gcov_type = "64 word"

text \<open>Pointers that the code only carries around (never dereferences) are opaque addresses.\<close>

type_synonym addr = nat

text \<open>A merge function pointer; the null pointer is \<open>None\<close>.\<close>

type_synonym gcov_merge_fn = "addr option"

text \<open>
  \<^verbatim>\<open>struct gcov_ctr_info\<close>: the array behind the \<^verbatim>\<open>values\<close> pointer is the list
  \<open>values\<close>; \<open>num\<close> is a field of its own, as in the struct.
\<close>

record gcov_ctr_info =
  num :: gcov_unsigned_t
  "values" :: "gcov_type list"

text \<open>\<^verbatim>\<open>struct gcov_fn_info\<close>: the trailing array \<^verbatim>\<open>ctrs\<close> is a list.\<close>

record gcov_fn_info =
  key :: addr
  ident :: gcov_unsigned_t
  lineno_checksum :: gcov_unsigned_t
  cfg_checksum :: gcov_unsigned_t
  ctrs :: "gcov_ctr_info list"

text \<open>
  \<^verbatim>\<open>struct gcov_info\<close>: \<open>merge\<close> is the array \<^verbatim>\<open>merge[GCOV_COUNTERS]\<close>, \<open>functions\<close>
  the array of function records that \<^verbatim>\<open>functions\<close> points to (each entry a
  non-null pointer, dereferenced), and \<open>n_functions\<close> the separate count field.
\<close>

record gcov_info =
  version :: gcov_unsigned_t
  "next" :: addr
  stamp :: gcov_unsigned_t
  checksum :: gcov_unsigned_t
  filename :: string
  merge :: "gcov_merge_fn list"
  n_functions :: "32 word"
  "functions" :: "gcov_fn_info list"

text \<open>
  The memory the two operations work on: the profiling data set that \<^verbatim>\<open>gi_ptr\<close>
  points to and the caller's destination buffer (\<open>None\<close> is the \<^verbatim>\<open>NULL\<close> buffer).
  The buffer is an array of 32-bit words, separate from the data set.
\<close>

record gcov_mem =
  gi :: gcov_info
  buffer :: "gcov_unsigned_t list option"

subsection \<open>Constants of gcov_gcc.h\<close>

text \<open>
  The tag values are defined in gcov_gcc.h, which depends on the gcc version in use.
  They are parameters of the model.
\<close>

record gcov_tags =
  GCOV_DATA_MAGIC :: gcov_unsigned_t
  GCOV_TAG_FUNCTION :: gcov_unsigned_t
  GCOV_TAG_FOR_COUNTER :: "nat \<Rightarrow> gcov_unsigned_t"

text \<open>
  Modelled from the spec: the macro \<^verbatim>\<open>GCOV_TAG_FUNCTION_LENGTH\<close> of gcov_gcc.h. The
  length of a function record is a constant: identity and two checksums, 3 words.
\<close>

definition GCOV_TAG_FUNCTION_LENGTH :: gcov_unsigned_t where
  "GCOV_TAG_FUNCTION_LENGTH = 3"

text \<open>
  Modelled from the spec: the macro \<^verbatim>\<open>GCOV_TAG_COUNTER_LENGTH\<close> of gcov_gcc.h. The
  length of a counter record is twice the count, as a 32-bit word (it is passed as
  a \<^verbatim>\<open>gcov_unsigned_t\<close>).
\<close>

definition GCOV_TAG_COUNTER_LENGTH :: "gcov_unsigned_t \<Rightarrow> gcov_unsigned_t" where
  "GCOV_TAG_COUNTER_LENGTH n = n * 2"

text \<open>\<^verbatim>\<open>GCOV_COUNTERS\<close> is the dimension of the \<^verbatim>\<open>merge\<close> array.\<close>

definition GCOV_COUNTERS :: "gcov_info \<Rightarrow> nat" where
  "GCOV_COUNTERS g = length (merge g)"

subsection \<open>Reading arrays and running loops\<close>

text \<open>
  An array read outside the array is undefined behaviour in C; the model returns
  \<open>None\<close> there, and \<open>None\<close> propagates to the result of the operation.
\<close>

definition nth_opt :: "'a list \<Rightarrow> nat \<Rightarrow> 'a option" where
  "nth_opt xs i = (if i < length xs then Some (xs ! i) else None)"

text \<open>
  \<^verbatim>\<open>for (i = 0; i < n; i++) body\<close> runs the body on the indices \<open>[0..<n]\<close> in order,
  threading the state, and stops at the first undefined step.
\<close>

fun for_loop :: "nat list \<Rightarrow> (nat \<Rightarrow> 'st \<Rightarrow> 'st option) \<Rightarrow> 'st \<Rightarrow> 'st option" where
  "for_loop [] body s = Some s"
| "for_loop (i # is) body s = (case body i s of None \<Rightarrow> None | Some s' \<Rightarrow> for_loop is body s')"

section \<open>gcov_info_filename\<close>

text \<open>The accessor returns the stored file name.\<close>

definition gcov_info_filename :: "gcov_info \<Rightarrow> string" where
  "gcov_info_filename info = filename info"

section \<open>The store primitives\<close>

text \<open>
  Each primitive writes at \<^verbatim>\<open>buffer + off\<close> when the buffer is not \<^verbatim>\<open>NULL\<close> and
  returns the number of buffer units. \<^verbatim>\<open>sizeof(*data)/sizeof(*buffer)\<close> is 1.
  The offset has type \<^verbatim>\<open>size_t\<close>, whose width \<open>'s\<close> depends on the target. A write
  beyond the end of the buffer is undefined.
\<close>

definition store_gcov_unsigned ::
  "gcov_mem \<Rightarrow> 's::len word \<Rightarrow> gcov_unsigned_t \<Rightarrow> (gcov_mem \<times> 's word) option" where
  "store_gcov_unsigned m off v =
     (case buffer m of
        None \<Rightarrow> Some (m, 1)
      | Some b \<Rightarrow>
          if unat off < length b
          then Some (m\<lparr>buffer := Some (b[unat off := v])\<rparr>, 1)
          else None)"

definition store_gcov_tag_length ::
  "gcov_mem \<Rightarrow> 's::len word \<Rightarrow> gcov_unsigned_t \<Rightarrow> gcov_unsigned_t \<Rightarrow> (gcov_mem \<times> 's word) option" where
  "store_gcov_tag_length m off tag len =
     (case buffer m of
        None \<Rightarrow> Some (m, 1 * 2)
      | Some b \<Rightarrow>
          if unat off + 1 < length b
          then Some (m\<lparr>buffer := Some (b[unat off := tag, unat off + 1 := len])\<rparr>, 1 * 2)
          else None)"

definition store_gcov_counter ::
  "gcov_mem \<Rightarrow> 's::len word \<Rightarrow> gcov_type \<Rightarrow> (gcov_mem \<times> 's word) option" where
  "store_gcov_counter m off v =
     (case buffer m of
        None \<Rightarrow> Some (m, 1 * 2)
      | Some b \<Rightarrow>
          if unat off + 1 < length b
          then Some (m\<lparr>buffer := Some (b[unat off := ucast (v AND 0xffffffff),
                                          unat off + 1 := ucast (drop_bit 32 v)])\<rparr>, 1 * 2)
          else None)"

section \<open>gcov_convert_to_gcda\<close>

text \<open>
  \<^verbatim>\<open>fi_ptr\<close> is \<^verbatim>\<open>gi_ptr->functions[fi_idx]\<close>, and \<^verbatim>\<open>ci_ptr\<close> points into that
  function's \<^verbatim>\<open>ctrs\<close> array: it starts at index 0 and \<^verbatim>\<open>ci_ptr++\<close> moves it to the
  next entry. Dereferencing either reads the memory as it is at that moment.
\<close>

definition fn_at :: "gcov_mem \<Rightarrow> nat \<Rightarrow> gcov_fn_info option" where
  "fn_at m fi_idx = nth_opt (functions (gi m)) fi_idx"

definition ctr_at :: "gcov_mem \<Rightarrow> nat \<Rightarrow> nat \<Rightarrow> gcov_ctr_info option" where
  "ctr_at m fi_idx ci = do { fi_ptr \<leftarrow> fn_at m fi_idx; nth_opt (ctrs fi_ptr) ci }"

text \<open>The body of the loop over \<^verbatim>\<open>cv_idx\<close>: one counter value.\<close>

definition convert_value ::
  "nat \<Rightarrow> nat \<Rightarrow> nat \<Rightarrow> gcov_mem \<times> 's::len word \<Rightarrow> (gcov_mem \<times> 's word) option" where
  "convert_value fi_idx ci cv_idx = (\<lambda>(m, pos). do {
     ci_ptr \<leftarrow> ctr_at m fi_idx ci;
     v \<leftarrow> nth_opt (values ci_ptr) cv_idx;
     (m, n) \<leftarrow> store_gcov_counter m pos v;
     Some (m, pos + n) })"

text \<open>
  The body of the loop over \<^verbatim>\<open>ct_idx\<close>: an unused counter (null merge entry) is
  skipped by \<^verbatim>\<open>continue\<close>; otherwise the counter record is written and \<^verbatim>\<open>ci_ptr\<close>
  advances. The state is the memory, \<^verbatim>\<open>pos\<close> and the index of \<^verbatim>\<open>ci_ptr\<close>.
\<close>

definition convert_counter ::
  "gcov_tags \<Rightarrow> nat \<Rightarrow> nat \<Rightarrow> gcov_mem \<times> 's::len word \<times> nat
     \<Rightarrow> (gcov_mem \<times> 's word \<times> nat) option" where
  "convert_counter cs fi_idx ct_idx = (\<lambda>(m, pos, ci). do {
     mrg \<leftarrow> nth_opt (merge (gi m)) ct_idx;
     if mrg = None then Some (m, pos, ci)
     else do {
       ci_ptr \<leftarrow> ctr_at m fi_idx ci;
       (m, n) \<leftarrow> store_gcov_tag_length m pos (GCOV_TAG_FOR_COUNTER cs ct_idx)
                   (GCOV_TAG_COUNTER_LENGTH (num ci_ptr));
       let pos = pos + n;
       ci_ptr \<leftarrow> ctr_at m fi_idx ci;
       (m, pos) \<leftarrow> for_loop [0..<unat (num ci_ptr)] (convert_value fi_idx ci) (m, pos);
       Some (m, pos, ci + 1) } })"

text \<open>
  The body of the loop over \<^verbatim>\<open>fi_idx\<close>: one function record and its counter records.
  The watchdog reset, compiled in only under \<^verbatim>\<open>GCOV_OPT_RESET_WATCHDOG\<close>, writes a
  hardware register that is part of neither the data set nor the buffer; the
  model is the build without it.
\<close>

definition convert_function ::
  "gcov_tags \<Rightarrow> nat \<Rightarrow> gcov_mem \<times> 's::len word \<Rightarrow> (gcov_mem \<times> 's word) option" where
  "convert_function cs fi_idx = (\<lambda>(m, pos). do {
     _ \<leftarrow> fn_at m fi_idx;
     (m, n) \<leftarrow> store_gcov_tag_length m pos (GCOV_TAG_FUNCTION cs) GCOV_TAG_FUNCTION_LENGTH;
     let pos = pos + n;
     fi_ptr \<leftarrow> fn_at m fi_idx;
     (m, n) \<leftarrow> store_gcov_unsigned m pos (ident fi_ptr);
     let pos = pos + n;
     fi_ptr \<leftarrow> fn_at m fi_idx;
     (m, n) \<leftarrow> store_gcov_unsigned m pos (lineno_checksum fi_ptr);
     let pos = pos + n;
     fi_ptr \<leftarrow> fn_at m fi_idx;
     (m, n) \<leftarrow> store_gcov_unsigned m pos (cfg_checksum fi_ptr);
     let pos = pos + n;
     (m, pos, ci) \<leftarrow> for_loop [0..<GCOV_COUNTERS (gi m)] (convert_counter cs fi_idx) (m, pos, 0);
     Some (m, pos) })"

text \<open>
  The function itself: the file header, the loop over the functions, and the count
  of bytes, \<^verbatim>\<open>pos * sizeof(*buffer)\<close>, a \<^verbatim>\<open>size_t\<close> product. The result is the memory
  after the call and the value returned.
\<close>

definition gcov_convert_to_gcda ::
  "gcov_tags \<Rightarrow> gcov_mem \<Rightarrow> (gcov_mem \<times> 's::len word) option" where
  "gcov_convert_to_gcda cs m = do {
     let pos = 0;
     (m, n) \<leftarrow> store_gcov_tag_length m pos (GCOV_DATA_MAGIC cs) (version (gi m));
     let pos = pos + n;
     (m, n) \<leftarrow> store_gcov_unsigned m pos (stamp (gi m));
     let pos = pos + n;
     (m, n) \<leftarrow> store_gcov_unsigned m pos (checksum (gi m));
     let pos = pos + n;
     (m, pos) \<leftarrow> for_loop [0..<unat (n_functions (gi m))] (convert_function cs) (m, pos);
     Some (m, pos * 4) }"

section \<open>gcov_clear_counters\<close>

text \<open>The assignment \<^verbatim>\<open>ci_ptr->values[cv_idx] = 0\<close>; outside the array it is undefined.\<close>

definition clear_value :: "nat \<Rightarrow> nat \<Rightarrow> nat \<Rightarrow> gcov_mem \<Rightarrow> gcov_mem option" where
  "clear_value fi_idx ci cv_idx m = do {
     fi_ptr \<leftarrow> fn_at m fi_idx;
     ci_ptr \<leftarrow> nth_opt (ctrs fi_ptr) ci;
     if cv_idx < length (values ci_ptr)
     then Some (m\<lparr>gi := (gi m)\<lparr>functions := (functions (gi m))
            [fi_idx := fi_ptr\<lparr>ctrs := (ctrs fi_ptr)
               [ci := ci_ptr\<lparr>values := (values ci_ptr)[cv_idx := 0]\<rparr>]\<rparr>]\<rparr>\<rparr>)
     else None }"

definition clear_counter :: "nat \<Rightarrow> nat \<Rightarrow> gcov_mem \<times> nat \<Rightarrow> (gcov_mem \<times> nat) option" where
  "clear_counter fi_idx ct_idx = (\<lambda>(m, ci). do {
     mrg \<leftarrow> nth_opt (merge (gi m)) ct_idx;
     if mrg = None then Some (m, ci)
     else do {
       ci_ptr \<leftarrow> ctr_at m fi_idx ci;
       m \<leftarrow> for_loop [0..<unat (num ci_ptr)] (clear_value fi_idx ci) m;
       Some (m, ci + 1) } })"

definition clear_function :: "nat \<Rightarrow> gcov_mem \<Rightarrow> gcov_mem option" where
  "clear_function fi_idx m = do {
     _ \<leftarrow> fn_at m fi_idx;
     (m, ci) \<leftarrow> for_loop [0..<GCOV_COUNTERS (gi m)] (clear_counter fi_idx) (m, 0);
     Some m }"

definition gcov_clear_counters :: "gcov_mem \<Rightarrow> gcov_mem option" where
  "gcov_clear_counters m = for_loop [0..<unat (n_functions (gi m))] clear_function m"

section \<open>Structurally valid data sets\<close>

text \<open>
  The slots of the merge array with a merge function, in ascending order. A data
  set is structurally valid when \<open>n_functions\<close> is the length of the function array,
  every function has exactly one counter group per active slot, and every group's
  \<open>num\<close> is the length of its value array.
\<close>

definition active_slots :: "gcov_info \<Rightarrow> nat list" where
  "active_slots g = filter (\<lambda>ct_idx. merge g ! ct_idx \<noteq> None) [0..<GCOV_COUNTERS g]"

definition valid_ctr :: "gcov_ctr_info \<Rightarrow> bool" where
  "valid_ctr c \<longleftrightarrow> unat (num c) = length (values c)"

definition valid_fn :: "gcov_info \<Rightarrow> gcov_fn_info \<Rightarrow> bool" where
  "valid_fn g f \<longleftrightarrow> length (ctrs f) = length (active_slots g) \<and> list_all valid_ctr (ctrs f)"

definition valid_info :: "gcov_info \<Rightarrow> bool" where
  "valid_info g \<longleftrightarrow>
     unat (n_functions g) = length (functions g) \<and> list_all (valid_fn g) (functions g)"

section \<open>The gcda stream as the format describes it\<close>

text \<open>
  The records of the binary format, written after the format description: a 64-bit
  value is its low 32 bits followed by its upper 32 bits; the header record is
  \<open>[MAGIC_TAG, formatVersion][buildStamp][checksum]\<close>; a function record is
  \<open>[FUNCTION_TAG, 3][identity][lineChecksum][structureChecksum]\<close>; a counter-group
  record is \<open>[COUNTER_TAG(kind), 2*count]\<close> followed by the values. The stream is
  the header, then every function record in order, each followed by its
  counter-group records, one per active slot in ascending slot order.
\<close>

definition counter_words :: "gcov_type \<Rightarrow> gcov_unsigned_t list" where
  "counter_words v = [of_nat (unat v mod 2 ^ 32), of_nat (unat v div 2 ^ 32)]"

definition header_record :: "gcov_tags \<Rightarrow> gcov_info \<Rightarrow> gcov_unsigned_t list" where
  "header_record cs g = [GCOV_DATA_MAGIC cs, version g, stamp g, checksum g]"

definition function_record :: "gcov_tags \<Rightarrow> gcov_fn_info \<Rightarrow> gcov_unsigned_t list" where
  "function_record cs f = [GCOV_TAG_FUNCTION cs, 3, ident f, lineno_checksum f, cfg_checksum f]"

definition counter_group_record ::
  "gcov_tags \<Rightarrow> nat \<Rightarrow> gcov_ctr_info \<Rightarrow> gcov_unsigned_t list" where
  "counter_group_record cs kind c =
     [GCOV_TAG_FOR_COUNTER cs kind, 2 * num c] @ concat (map counter_words (values c))"

definition function_stream :: "gcov_tags \<Rightarrow> gcov_info \<Rightarrow> gcov_fn_info \<Rightarrow> gcov_unsigned_t list" where
  "function_stream cs g f =
     function_record cs f
       @ concat (map (\<lambda>(kind, c). counter_group_record cs kind c) (zip (active_slots g) (ctrs f)))"

definition gcda_stream :: "gcov_tags \<Rightarrow> gcov_info \<Rightarrow> gcov_unsigned_t list" where
  "gcda_stream cs g = header_record cs g @ concat (map (function_stream cs g) (functions g))"

text \<open>
  The memory after the words \<open>ws\<close> have been written from offset 0 of the buffer
  of \<open>m\<close>: nothing changes when there is no buffer.
\<close>

definition written :: "gcov_mem \<Rightarrow> gcov_unsigned_t list \<Rightarrow> gcov_mem" where
  "written m ws = m\<lparr>buffer := map_option (\<lambda>b. ws @ drop (length ws) b) (buffer m)\<rparr>"

text \<open>
  The buffer of \<open>m\<close>, when there is one, has room for \<open>n\<close> words, and its length is
  below the bound \<open>M\<close> (for an array in memory, the range of \<^verbatim>\<open>size_t\<close>).
\<close>

definition room :: "nat \<Rightarrow> gcov_mem \<Rightarrow> nat \<Rightarrow> bool" where
  "room M m n = (case buffer m of None \<Rightarrow> True | Some b \<Rightarrow> n \<le> length b \<and> length b < M)"

text \<open>The active slots below \<open>j\<close>.\<close>

definition active_below :: "gcov_info \<Rightarrow> nat \<Rightarrow> nat list" where
  "active_below g j = filter (\<lambda>ct_idx. merge g ! ct_idx \<noteq> None) [0..<j]"

text \<open>The counter records of a function for the slots below \<open>j\<close>.\<close>

definition groups_below :: "gcov_tags \<Rightarrow> gcov_info \<Rightarrow> gcov_fn_info \<Rightarrow> nat \<Rightarrow> gcov_unsigned_t list" where
  "groups_below cs g f j =
     concat (map (\<lambda>(kind, c). counter_group_record cs kind c) (zip (active_below g j) (ctrs f)))"

text \<open>
  The data set after a reset as the description has it: every value of every
  counter group is zero, the arrays keep their lengths, and nothing else changes.
\<close>

definition zero_ctr :: "gcov_ctr_info \<Rightarrow> gcov_ctr_info" where
  "zero_ctr c = c\<lparr>values := replicate (length (values c)) 0\<rparr>"

definition zero_fn :: "gcov_fn_info \<Rightarrow> gcov_fn_info" where
  "zero_fn f = f\<lparr>ctrs := map zero_ctr (ctrs f)\<rparr>"

definition zero_info :: "gcov_info \<Rightarrow> gcov_info" where
  "zero_info g = g\<lparr>functions := map zero_fn (functions g)\<rparr>"

text \<open>The memory with the function array replaced.\<close>

definition with_fns :: "gcov_mem \<Rightarrow> gcov_fn_info list \<Rightarrow> gcov_mem" where
  "with_fns m fs = m\<lparr>gi := (gi m)\<lparr>functions := fs\<rparr>\<rparr>"

text \<open>
  The closed form of the encoded size in 32-bit words: 4 for the header, and for
  every function 5 plus, for every counter group of an active slot, 2 plus twice
  its \<open>num\<close>.
\<close>

definition closed_form_words :: "gcov_info \<Rightarrow> nat" where
  "closed_form_words g =
     4 + (\<Sum>f\<leftarrow>functions g. 5 + (\<Sum>(kind, c)\<leftarrow>zip (active_slots g) (ctrs f). 2 + 2 * unat (num c)))"

section \<open>An example data set\<close>

text \<open>
  One function with identity 7, zero checksums and one counter group holding the
  values 5 and 300000000000, in a data set with version \<open>0x1234\<close>, stamp 100 and
  checksum 200. The merge array is a parameter.
\<close>

definition scenario_fn :: gcov_fn_info where
  "scenario_fn = \<lparr>key = 0, ident = 7, lineno_checksum = 0, cfg_checksum = 0,
     ctrs = [\<lparr>num = 2, values = [5, 300000000000]\<rparr>]\<rparr>"

definition scenario_info :: "gcov_merge_fn list \<Rightarrow> gcov_info" where
  "scenario_info mrg = \<lparr>version = 0x1234, next = 0, stamp = 100, checksum = 200,
     filename = ''scenario.gcda'', merge = mrg, n_functions = 1, functions = [scenario_fn]\<rparr>"

text \<open>Tag values for the examples (those of gcc's gcov-io.h).\<close>

definition gcc_tags :: gcov_tags where
  "gcc_tags = \<lparr>GCOV_DATA_MAGIC = 0x67636461, GCOV_TAG_FUNCTION = 0x01000000,
     GCOV_TAG_FOR_COUNTER = (\<lambda>ct_idx. 0x01a10000 + push_bit 17 (of_nat ct_idx))\<rparr>"

text \<open>
  A second data set: three counter slots of which the middle one is unused, and
  two functions with two counter groups each.
\<close>

definition mixed_info :: gcov_info where
  "mixed_info = \<lparr>version = 0x1234, next = 0, stamp = 100, checksum = 200,
     filename = ''mixed.gcda'', merge = [Some 42, None, Some 43], n_functions = 2,
     functions =
       [\<lparr>key = 0, ident = 7, lineno_checksum = 0, cfg_checksum = 0,
          ctrs = [\<lparr>num = 1, values = [5]\<rparr>, \<lparr>num = 2, values = [6, 300000000000]\<rparr>]\<rparr>,
        \<lparr>key = 0, ident = 8, lineno_checksum = 1, cfg_checksum = 2,
          ctrs = [\<lparr>num = 0, values = []\<rparr>, \<lparr>num = 1, values = [9]\<rparr>]\<rparr>]\<rparr>"

section \<open>Properties\<close>

subsection \<open>Lists and loops\<close>

lemma update_two_conv:
  assumes "p + 1 < length b"
  shows "b[p := x, p + 1 := y] = take p b @ [x, y] @ drop (p + 2) b"
proof -
  from assms have p: "p < length b" by simp
  have "b[p := x] = take p b @ x # drop (Suc p) b"
    using p by (rule upd_conv_take_nth_drop)
  moreover have "drop (Suc p) b = b ! Suc p # drop (Suc (Suc p)) b"
    using assms by (simp add: Cons_nth_drop_Suc)
  ultimately have "b[p := x] = (take p b @ [x]) @ (b ! Suc p) # drop (Suc (Suc p)) b"
    by simp
  moreover have "length (take p b @ [x]) = p + 1" using p by simp
  ultimately have "b[p := x, p + 1 := y] = (take p b @ [x]) @ y # drop (Suc (Suc p)) b"
    by (metis list_update_length)
  then show ?thesis by simp
qed

lemma for_loop_append:
  "for_loop (xs @ ys) body s = (case for_loop xs body s of None \<Rightarrow> None | Some s' \<Rightarrow> for_loop ys body s')"
  by (induction xs arbitrary: s) (auto split: option.splits)

lemma for_loop_upt:
  assumes "\<And>i. i < n \<Longrightarrow> body i (S i) = Some (S (Suc i))"
  shows "for_loop [0..<n] body (S 0) = Some (S n)"
  using assms
proof (induction n)
  case 0
  show ?case by simp
next
  case (Suc n)
  then have "for_loop [0..<n] body (S 0) = Some (S n)" by simp
  moreover have "body n (S n) = Some (S (Suc n))" using Suc.prems by simp
  ultimately show ?case by (simp add: for_loop_append)
qed

lemma for_loop_preserves:
  assumes "\<And>i s s'. body i s = Some s' \<Longrightarrow> P s \<Longrightarrow> P s'"
  shows "for_loop ixs body s = Some s' \<Longrightarrow> P s \<Longrightarrow> P s'"
proof (induction ixs arbitrary: s)
  case Nil
  then show ?case by simp
next
  case (Cons i ixs)
  then show ?case using assms by (auto split: option.splits)
qed

subsection \<open>The store primitives append to the stream\<close>

text \<open>
  When the words \<open>ws\<close> have been written from offset 0 and the position is their
  number, each primitive appends its words, provided the buffer has room.
\<close>

lemma room_mono: "room M m n \<Longrightarrow> k \<le> n \<Longrightarrow> room M m k"
  by (auto simp: room_def split: option.splits)

lemma gi_written [simp]: "gi (written m ws) = gi m"
  by (simp add: written_def)

lemma written_Nil [simp]: "written m [] = m"
  by (cases "buffer m") (simp_all add: written_def)

lemma room_unat:
  assumes "room (2 ^ LENGTH('s::len)) m (length ws + k)" and "buffer m = Some b"
  shows "unat (of_nat (length ws) :: 's word) = length ws" and "length ws + k \<le> length b"
proof -
  from assms have le: "length ws + k \<le> length b" and lt: "length b < 2 ^ LENGTH('s)"
    by (simp_all add: room_def)
  then have "length ws < 2 ^ LENGTH('s)" by simp
  then show "unat (of_nat (length ws) :: 's word) = length ws"
    by (simp add: of_nat_inverse)
  show "length ws + k \<le> length b" by (rule le)
qed

lemma store_unsigned_step:
  assumes "pos = of_nat (length ws)" and "room (2 ^ LENGTH('s::len)) m (length ws + 1)"
  shows "store_gcov_unsigned (written m ws) (pos :: 's word) v = Some (written m (ws @ [v]), 1)"
proof (cases "buffer m")
  case None
  then show ?thesis by (simp add: store_gcov_unsigned_def written_def)
next
  case (Some b)
  from room_unat [OF assms(2) Some]
  have u: "unat pos = length ws" and le: "length ws + 1 \<le> length b"
    using assms(1) by simp_all
  have "(ws @ drop (length ws) b)[length ws := v] = ws @ v # drop (Suc (length ws)) b"
    using le by (simp add: list_update_append flip: Cons_nth_drop_Suc)
  then show ?thesis
    using Some u le by (simp add: store_gcov_unsigned_def written_def)
qed

lemma update_two_append:
  assumes "length ws + 2 \<le> length b"
  shows "(ws @ drop (length ws) b)[length ws := x, length ws + 1 := y]
           = (ws @ [x, y]) @ drop (length ws + 2) b"
proof -
  have "length ws + 1 < length (ws @ drop (length ws) b)" using assms by simp
  from update_two_conv [OF this, of x y] show ?thesis by simp
qed

lemma store_tag_length_step:
  assumes "pos = of_nat (length ws)" and "room (2 ^ LENGTH('s::len)) m (length ws + 2)"
  shows "store_gcov_tag_length (written m ws) (pos :: 's word) t l
           = Some (written m (ws @ [t, l]), 2)"
proof (cases "buffer m")
  case None
  then show ?thesis by (simp add: store_gcov_tag_length_def written_def)
next
  case (Some b)
  from room_unat [OF assms(2) Some]
  have u: "unat pos = length ws" and le: "length ws + 2 \<le> length b"
    using assms(1) by simp_all
  show ?thesis
    using Some u le update_two_append [OF le, of t l]
    by (simp add: store_gcov_tag_length_def written_def)
qed

lemma counter_words_eq:
  "counter_words v = [ucast (v AND 0xffffffff), ucast (drop_bit 32 v)]"
proof -
  have m: "(0xffffffff :: gcov_type) = mask 32" by (simp add: mask_eq_exp_minus_1)
  have "unat (ucast (v AND 0xffffffff) :: gcov_unsigned_t) = unat v mod 2 ^ 32"
    unfolding m
    by (simp add: unsigned_ucast_eq unsigned_take_bit_eq take_bit_eq_mod unat_mod_distrib
          flip: take_bit_eq_mask)
  then have lo: "(ucast (v AND 0xffffffff) :: gcov_unsigned_t) = of_nat (unat v mod 2 ^ 32)"
    by (simp add: word_unat_eq_iff unat_of_nat)
  have "unat v < 2 ^ 64" using unsigned_less [of v] by simp
  then have d: "unat v div 2 ^ 32 < 2 ^ 32" by (simp add: less_mult_imp_div_less)
  then have "unat (ucast (drop_bit 32 v) :: gcov_unsigned_t) = unat v div 2 ^ 32"
    by (simp add: unsigned_ucast_eq unsigned_drop_bit_eq take_bit_eq_mod drop_bit_eq_div
          unat_div_distrib)
  with d have hi: "(ucast (drop_bit 32 v) :: gcov_unsigned_t) = of_nat (unat v div 2 ^ 32)"
    by (simp add: word_unat_eq_iff unat_of_nat)
  show ?thesis unfolding counter_words_def using lo hi by simp
qed

lemma store_counter_step:
  assumes "pos = of_nat (length ws)" and "room (2 ^ LENGTH('s::len)) m (length ws + 2)"
  shows "store_gcov_counter (written m ws) (pos :: 's word) v
           = Some (written m (ws @ counter_words v), 2)"
proof (cases "buffer m")
  case None
  then show ?thesis by (simp add: store_gcov_counter_def written_def)
next
  case (Some b)
  from room_unat [OF assms(2) Some]
  have u: "unat pos = length ws" and le: "length ws + 2 \<le> length b"
    using assms(1) by simp_all
  show ?thesis
    using Some u le
      update_two_append [OF le, of "ucast (v AND 0xffffffff)" "ucast (drop_bit 32 v)"]
    by (simp add: store_gcov_counter_def written_def counter_words_eq)
qed

subsection \<open>The encoder writes the stream\<close>

lemma fn_at_written [simp]: "fn_at (written m ws) fi = fn_at m fi"
  by (simp add: fn_at_def)

lemma ctr_at_written [simp]: "ctr_at (written m ws) fi ci = ctr_at m fi ci"
  by (simp add: ctr_at_def)

lemma length_counter_words [simp]: "length (concat (map counter_words vs)) = 2 * length vs"
  by (induction vs) (simp_all add: counter_words_def)

lemma convert_values_loop:
  assumes c: "ctr_at m fi ci = Some c"
    and room: "room (2 ^ LENGTH('s::len)) m (length ws + 2 * length (values c))"
  shows "for_loop [0..<length (values c)] (convert_value fi ci)
           (written m ws, of_nat (length ws) :: 's word)
         = Some (written m (ws @ concat (map counter_words (values c))),
                 of_nat (length (ws @ concat (map counter_words (values c)))))"
proof -
  define S :: "nat \<Rightarrow> gcov_mem \<times> 's word" where
    "S i = (written m (ws @ concat (map counter_words (take i (values c)))),
            of_nat (length (ws @ concat (map counter_words (take i (values c))))))" for i
  have step: "convert_value fi ci i (S i) = Some (S (Suc i))" if i: "i < length (values c)" for i
  proof -
    let ?ws = "ws @ concat (map counter_words (take i (values c)))"
    have len: "length ?ws = length ws + 2 * i" using i by simp
    have "room (2 ^ LENGTH('s)) m (length ?ws + 2)"
      using room i by (auto intro: room_mono simp: len)
    then have st: "store_gcov_counter (written m ?ws) (of_nat (length ?ws) :: 's word) (values c ! i)
                 = Some (written m (?ws @ counter_words (values c ! i)), 2)"
      by (intro store_counter_step) simp_all
    have "length (counter_words (values c ! i)) = 2" by (simp add: counter_words_def)
    then have pos: "(of_nat (length ?ws) :: 's word) + 2
                 = of_nat (length (?ws @ counter_words (values c ! i)))"
      by simp
    show ?thesis
      unfolding S_def convert_value_def
      using c i st pos by (simp add: nth_opt_def take_Suc_conv_app_nth)
  qed
  have "for_loop [0..<length (values c)] (convert_value fi ci) (S 0) = Some (S (length (values c)))"
    by (rule for_loop_upt) (rule step)
  then show ?thesis by (simp add: S_def)
qed

lemma zip_append_left:
  "zip (xs @ ys) cs = zip xs cs @ zip ys (drop (length xs) cs)"
proof (induction xs arbitrary: cs)
  case Nil
  show ?case by simp
next
  case (Cons x xs)
  then show ?case by (cases cs) simp_all
qed

lemma active_below_0 [simp]: "active_below g 0 = []"
  by (simp add: active_below_def)

lemma active_below_Suc:
  "active_below g (Suc j) = active_below g j @ (if merge g ! j \<noteq> None then [j] else [])"
  by (simp add: active_below_def)

lemma active_below_all: "active_below g (GCOV_COUNTERS g) = active_slots g"
  by (simp add: active_below_def active_slots_def)

lemma length_active_below_mono: "i \<le> j \<Longrightarrow> length (active_below g i) \<le> length (active_below g j)"
  by (rule lift_Suc_mono_le) (simp_all add: active_below_Suc)

lemma length_active_below_less:
  assumes "j < n" and "merge g ! j \<noteq> None"
  shows "length (active_below g j) < length (active_below g n)"
proof -
  have "length (active_below g (Suc j)) \<le> length (active_below g n)"
    using assms(1) by (intro length_active_below_mono) simp
  then show ?thesis using assms(2) by (simp add: active_below_Suc)
qed

lemma groups_below_0 [simp]: "groups_below cs g f 0 = []"
  by (simp add: groups_below_def)

lemma groups_below_skip:
  "merge g ! j = None \<Longrightarrow> groups_below cs g f (Suc j) = groups_below cs g f j"
  by (simp add: groups_below_def active_below_Suc)

lemma groups_below_active:
  assumes "merge g ! j \<noteq> None" and "length (active_below g j) < length (ctrs f)"
  shows "groups_below cs g f (Suc j)
           = groups_below cs g f j
               @ counter_group_record cs j (ctrs f ! length (active_below g j))"
  using assms
  by (simp add: groups_below_def active_below_Suc zip_append_left flip: Cons_nth_drop_Suc)

lemma length_groups_below_Suc:
  "length (groups_below cs g f j) \<le> length (groups_below cs g f (Suc j))"
  by (simp add: groups_below_def active_below_Suc zip_append_left)

lemma length_groups_below_mono:
  "i \<le> j \<Longrightarrow> length (groups_below cs g f i) \<le> length (groups_below cs g f j)"
  by (rule lift_Suc_mono_le) (simp_all add: length_groups_below_Suc)

lemma function_stream_groups:
  "function_stream cs g f = function_record cs f @ groups_below cs g f (GCOV_COUNTERS g)"
  by (simp add: function_stream_def groups_below_def active_below_all)

lemma length_counter_group_record:
  "length (counter_group_record cs kind c) = 2 + 2 * length (values c)"
  by (simp add: counter_group_record_def)

lemma ctr_at_Some:
  "fn_at m fi = Some f \<Longrightarrow> k < length (ctrs f) \<Longrightarrow> ctr_at m fi k = Some (ctrs f ! k)"
  by (simp add: ctr_at_def nth_opt_def)

lemma convert_counter_skip:
  assumes "ct_idx < GCOV_COUNTERS (gi m)" and "merge (gi m) ! ct_idx = None"
  shows "convert_counter cs fi ct_idx (m, pos, ci) = Some (m, pos, ci)"
  using assms by (simp add: convert_counter_def nth_opt_def GCOV_COUNTERS_def)

lemma convert_counter_active:
  assumes j: "ct_idx < GCOV_COUNTERS (gi m)" and act: "merge (gi m) ! ct_idx \<noteq> None"
    and c: "ctr_at m fi ci = Some c" and v: "valid_ctr c"
    and room: "room (2 ^ LENGTH('s::len)) m (length ws + length (counter_group_record cs ct_idx c))"
  shows "convert_counter cs fi ct_idx (written m ws, of_nat (length ws) :: 's word, ci)
         = Some (written m (ws @ counter_group_record cs ct_idx c),
                 of_nat (length (ws @ counter_group_record cs ct_idx c)), ci + 1)"
proof -
  let ?hd = "[GCOV_TAG_FOR_COUNTER cs ct_idx, GCOV_TAG_COUNTER_LENGTH (num c)]"
  have n: "unat (num c) = length (values c)" using v by (simp add: valid_ctr_def)
  have rec: "counter_group_record cs ct_idx c = ?hd @ concat (map counter_words (values c))"
    by (simp add: counter_group_record_def GCOV_TAG_COUNTER_LENGTH_def mult.commute)
  have "room (2 ^ LENGTH('s)) m (length ws + 2)"
    using room by (rule room_mono) (simp add: rec)
  then have st: "store_gcov_tag_length (written m ws) (of_nat (length ws) :: 's word)
                   (GCOV_TAG_FOR_COUNTER cs ct_idx) (GCOV_TAG_COUNTER_LENGTH (num c))
                 = Some (written m (ws @ ?hd), 2)"
    by (intro store_tag_length_step) simp_all
  have pos: "(of_nat (length ws) :: 's word) + 2 = of_nat (length (ws @ ?hd))" by simp
  have "room (2 ^ LENGTH('s)) m (length (ws @ ?hd) + 2 * length (values c))"
    using room by (rule room_mono) (simp add: rec)
  from convert_values_loop [OF c this]
  have lp: "for_loop [0..<unat (num c)] (convert_value fi ci)
              (written m (ws @ ?hd), (of_nat (length ws) :: 's word) + 2)
            = Some (written m (ws @ counter_group_record cs ct_idx c),
                    of_nat (length (ws @ counter_group_record cs ct_idx c)))"
    unfolding pos n rec by simp
  show ?thesis
    unfolding convert_counter_def
    using j act c by (simp add: nth_opt_def GCOV_COUNTERS_def st lp)
qed

lemma convert_counters_loop:
  assumes f: "fn_at m fi = Some f" and v: "valid_fn (gi m) f"
    and room: "room (2 ^ LENGTH('s::len)) m
                 (length ws + length (groups_below cs (gi m) f (GCOV_COUNTERS (gi m))))"
  shows "for_loop [0..<GCOV_COUNTERS (gi m)] (convert_counter cs fi)
           (written m ws, of_nat (length ws) :: 's word, 0)
         = Some (written m (ws @ groups_below cs (gi m) f (GCOV_COUNTERS (gi m))),
                 of_nat (length (ws @ groups_below cs (gi m) f (GCOV_COUNTERS (gi m)))),
                 length (ctrs f))"
proof -
  let ?g = "gi m" and ?n = "GCOV_COUNTERS (gi m)"
  define S :: "nat \<Rightarrow> gcov_mem \<times> 's word \<times> nat" where
    "S j = (written m (ws @ groups_below cs (gi m) f j),
            of_nat (length (ws @ groups_below cs (gi m) f j)),
            length (active_below (gi m) j))" for j
  have len: "length (ctrs f) = length (active_below ?g ?n)"
    using v by (simp add: valid_fn_def active_below_all)
  have step: "convert_counter cs fi j (S j) = Some (S (Suc j))" if j: "j < ?n" for j
  proof (cases "merge ?g ! j = None")
    case True
    have "convert_counter cs fi j (S j) = Some (S j)"
      unfolding S_def using j True by (intro convert_counter_skip) simp_all
    moreover have "S (Suc j) = S j"
      using True by (simp add: S_def groups_below_skip active_below_Suc)
    ultimately show ?thesis by simp
  next
    case False
    let ?k = "length (active_below ?g j)"
    let ?ws = "ws @ groups_below cs ?g f j"
    have k: "?k < length (ctrs f)"
      unfolding len using j False by (rule length_active_below_less)
    then have c: "ctr_at m fi ?k = Some (ctrs f ! ?k)"
      using f by (intro ctr_at_Some)
    have vc: "valid_ctr (ctrs f ! ?k)"
      using v k by (simp add: valid_fn_def list_all_length)
    have nxt: "groups_below cs ?g f (Suc j)
                 = groups_below cs ?g f j @ counter_group_record cs j (ctrs f ! ?k)"
      using False k by (rule groups_below_active)
    have "length (groups_below cs ?g f (Suc j)) \<le> length (groups_below cs ?g f ?n)"
      using j by (intro length_groups_below_mono) simp
    then have "room (2 ^ LENGTH('s)) m (length ?ws + length (counter_group_record cs j (ctrs f ! ?k)))"
      using room by (intro room_mono [OF room]) (simp add: nxt)
    from convert_counter_active [OF j False c vc this]
    show ?thesis by (simp add: S_def nxt active_below_Suc False)
  qed
  have "for_loop [0..<?n] (convert_counter cs fi) (S 0) = Some (S ?n)"
    by (rule for_loop_upt) (rule step)
  then show ?thesis by (simp add: S_def len)
qed

lemma convert_function_step:
  assumes f: "fn_at m fi = Some f" and v: "valid_fn (gi m) f"
    and room: "room (2 ^ LENGTH('s::len)) m (length ws + length (function_stream cs (gi m) f))"
  shows "convert_function cs fi (written m ws, of_nat (length ws) :: 's word)
         = Some (written m (ws @ function_stream cs (gi m) f),
                 of_nat (length (ws @ function_stream cs (gi m) f)))"
proof -
  let ?t = "GCOV_TAG_FUNCTION cs"
  let ?w2 = "ws @ [?t, GCOV_TAG_FUNCTION_LENGTH]"
  let ?w3 = "?w2 @ [ident f]"
  let ?w4 = "?w3 @ [lineno_checksum f]"
  let ?w5 = "?w4 @ [cfg_checksum f]"
  let ?grp = "groups_below cs (gi m) f (GCOV_COUNTERS (gi m))"
  have fs: "function_stream cs (gi m) f
              = [?t, GCOV_TAG_FUNCTION_LENGTH, ident f, lineno_checksum f, cfg_checksum f] @ ?grp"
    by (simp add: function_stream_groups function_record_def GCOV_TAG_FUNCTION_LENGTH_def)
  have r: "room (2 ^ LENGTH('s)) m (length ws + 5 + length ?grp)"
    using room by (rule room_mono) (simp add: fs)
  have s1: "store_gcov_tag_length (written m ws) (of_nat (length ws) :: 's word)
              ?t GCOV_TAG_FUNCTION_LENGTH = Some (written m ?w2, 2)"
    by (intro store_tag_length_step room_mono [OF r]) simp_all
  have s2: "store_gcov_unsigned (written m ?w2) ((of_nat (length ws) :: 's word) + 2) (ident f)
              = Some (written m ?w3, 1)"
    by (intro store_unsigned_step room_mono [OF r]) simp_all
  have s3: "store_gcov_unsigned (written m ?w3) ((of_nat (length ws) :: 's word) + 2 + 1)
              (lineno_checksum f) = Some (written m ?w4, 1)"
    by (intro store_unsigned_step room_mono [OF r]) simp_all
  have s4: "store_gcov_unsigned (written m ?w4) ((of_nat (length ws) :: 's word) + 2 + 1 + 1)
              (cfg_checksum f) = Some (written m ?w5, 1)"
    by (intro store_unsigned_step room_mono [OF r]) simp_all
  have p5: "(of_nat (length ws) :: 's word) + 2 + 1 + 1 + 1 = of_nat (length ?w5)" by simp
  have "room (2 ^ LENGTH('s)) m (length ?w5 + length ?grp)"
    using r by (rule room_mono) simp
  from convert_counters_loop [OF f v this]
  have lp: "for_loop [0..<GCOV_COUNTERS (gi m)] (convert_counter cs fi)
              (written m ?w5, (of_nat (length ws) :: 's word) + 2 + 1 + 1 + 1, 0)
            = Some (written m (ws @ function_stream cs (gi m) f),
                    of_nat (length (ws @ function_stream cs (gi m) f)), length (ctrs f))"
    unfolding p5 fs by simp
  show ?thesis
    unfolding convert_function_def
    by (simp only: prod.case fn_at_written gi_written f s1 s2 s3 s4 lp bind.bind_lunit Let_def)
qed

lemma length_concat_take_mono:
  assumes "i \<le> j"
  shows "length (concat (map h (take i xs))) \<le> length (concat (map h (take j xs)))"
proof -
  have st: "length (concat (map h (take n xs))) \<le> length (concat (map h (take (Suc n) xs)))" for n
    by (cases "n < length xs") (simp_all add: take_Suc_conv_app_nth)
  from assms show ?thesis
  proof (induction rule: dec_induct)
    case base
    show ?case by simp
  next
    case (step n)
    then show ?case using st [of n] by simp
  qed
qed

lemma convert_functions_loop:
  assumes v: "valid_info (gi m)"
    and room: "room (2 ^ LENGTH('s::len)) m
                 (length ws + length (concat (map (function_stream cs (gi m)) (functions (gi m)))))"
  shows "for_loop [0..<unat (n_functions (gi m))] (convert_function cs)
           (written m ws, of_nat (length ws) :: 's word)
         = Some (written m (ws @ concat (map (function_stream cs (gi m)) (functions (gi m)))),
                 of_nat (length (ws @ concat (map (function_stream cs (gi m)) (functions (gi m))))))"
proof -
  let ?fs = "functions (gi m)"
  let ?out = "\<lambda>i. concat (map (function_stream cs (gi m)) (take i ?fs))"
  define S :: "nat \<Rightarrow> gcov_mem \<times> 's word" where
    "S i = (written m (ws @ concat (map (function_stream cs (gi m)) (take i (functions (gi m))))),
            of_nat (length (ws @ concat (map (function_stream cs (gi m))
                                          (take i (functions (gi m)))))))" for i
  have n: "unat (n_functions (gi m)) = length ?fs" using v by (simp add: valid_info_def)
  have step: "convert_function cs i (S i) = Some (S (Suc i))" if i: "i < length ?fs" for i
  proof -
    have f: "fn_at m i = Some (?fs ! i)" using i by (simp add: fn_at_def nth_opt_def)
    have vf: "valid_fn (gi m) (?fs ! i)"
      using v i by (simp add: valid_info_def list_all_length)
    have nxt: "?out (Suc i) = ?out i @ function_stream cs (gi m) (?fs ! i)"
      using i by (simp add: take_Suc_conv_app_nth)
    have "length (?out (Suc i)) \<le> length (?out (length ?fs))"
      using i by (intro length_concat_take_mono) simp
    then have "room (2 ^ LENGTH('s)) m
                 (length (ws @ ?out i) + length (function_stream cs (gi m) (?fs ! i)))"
      by (intro room_mono [OF room]) (simp add: nxt)
    from convert_function_step [OF f vf this]
    show ?thesis by (simp add: S_def nxt)
  qed
  have "for_loop [0..<length ?fs] (convert_function cs) (S 0) = Some (S (length ?fs))"
    by (rule for_loop_upt) (rule step)
  then show ?thesis by (simp add: S_def n)
qed

lemma convert_to_gcda_written:
  assumes v: "valid_info (gi m)"
    and room: "room (2 ^ LENGTH('s::len)) m (length (gcda_stream cs (gi m)))"
  shows "gcov_convert_to_gcda cs m
         = Some (written m (gcda_stream cs (gi m)),
                 (of_nat (length (gcda_stream cs (gi m))) :: 's word) * 4)"
proof -
  let ?g = "gi m"
  let ?w2 = "[GCOV_DATA_MAGIC cs, version ?g]"
  let ?w3 = "?w2 @ [stamp ?g]"
  let ?w4 = "?w3 @ [checksum ?g]"
  let ?fns = "concat (map (function_stream cs ?g) (functions ?g))"
  have gs: "gcda_stream cs ?g = ?w4 @ ?fns"
    by (simp add: gcda_stream_def header_record_def)
  have r: "room (2 ^ LENGTH('s)) m (4 + length ?fns)"
    using room by (rule room_mono) (simp add: gs)
  have "store_gcov_tag_length (written m []) (of_nat (length ([] :: gcov_unsigned_t list)) :: 's word)
              (GCOV_DATA_MAGIC cs) (version ?g) = Some (written m ([] @ ?w2), 2)"
    by (intro store_tag_length_step room_mono [OF r]) simp_all
  then have s1: "store_gcov_tag_length m (0 :: 's word) (GCOV_DATA_MAGIC cs) (version ?g)
                   = Some (written m ?w2, 2)"
    by simp
  have s2: "store_gcov_unsigned (written m ?w2) ((0 :: 's word) + 2) (stamp ?g)
              = Some (written m ?w3, 1)"
    by (intro store_unsigned_step room_mono [OF r]) simp_all
  have s3: "store_gcov_unsigned (written m ?w3) ((0 :: 's word) + 2 + 1) (checksum ?g)
              = Some (written m ?w4, 1)"
    by (intro store_unsigned_step room_mono [OF r]) simp_all
  have p4: "(0 :: 's word) + 2 + 1 + 1 = of_nat (length ?w4)" by simp
  have "room (2 ^ LENGTH('s)) m (length ?w4 + length ?fns)"
    using r by (rule room_mono) simp
  from convert_functions_loop [OF v this]
  have lp: "for_loop [0..<unat (n_functions ?g)] (convert_function cs)
              (written m ?w4, (0 :: 's word) + 2 + 1 + 1)
            = Some (written m (gcda_stream cs ?g), of_nat (length (gcda_stream cs ?g)))"
    unfolding p4 gs by simp
  show ?thesis
    unfolding gcov_convert_to_gcda_def
    by (simp only: prod.case gi_written s1 s2 s3 lp bind.bind_lunit Let_def)
qed

subsection \<open>The reset zeroes the counters\<close>

lemma with_fns_simps [simp]:
  "functions (gi (with_fns m fs)) = fs"
  "merge (gi (with_fns m fs)) = merge (gi m)"
  "n_functions (gi (with_fns m fs)) = n_functions (gi m)"
  "GCOV_COUNTERS (gi (with_fns m fs)) = GCOV_COUNTERS (gi m)"
  "buffer (with_fns m fs) = buffer m"
  "with_fns (with_fns m fs) fs' = with_fns m fs'"
  by (simp_all add: with_fns_def GCOV_COUNTERS_def)

lemma with_fns_fold: "m\<lparr>gi := (gi m)\<lparr>functions := fs\<rparr>\<rparr> = with_fns m fs"
  by (simp add: with_fns_def)

lemma with_fns_same [simp]: "with_fns m (functions (gi m)) = m"
  by (simp add: with_fns_def)

lemma map_take_drop_nth:
  "i < length xs \<Longrightarrow> (map z (take i xs) @ drop i xs) ! i = xs ! i"
  by (simp add: nth_append)

lemma map_take_drop_update:
  "i < length xs \<Longrightarrow>
     (map z (take i xs) @ drop i xs)[i := z (xs ! i)] = map z (take (Suc i) xs) @ drop (Suc i) xs"
  by (simp add: list_update_append take_Suc_conv_app_nth flip: Cons_nth_drop_Suc)

lemma clear_values_loop:
  assumes f: "fn_at m fi = Some f" and c: "nth_opt (ctrs f) ci = Some c"
  shows "for_loop [0..<length (values c)] (clear_value fi ci) m
         = Some (with_fns m ((functions (gi m))[fi := f\<lparr>ctrs := (ctrs f)[ci := zero_ctr c]\<rparr>]))"
proof -
  let ?fs = "functions (gi m)"
  define S :: "nat \<Rightarrow> gcov_mem" where
    "S i = with_fns m ((functions (gi m))
             [fi := f\<lparr>ctrs := (ctrs f)
                [ci := c\<lparr>values := map (\<lambda>_. 0) (take i (values c)) @ drop i (values c)\<rparr>]\<rparr>])" for i
  from f have fi: "fi < length ?fs" and f_eq: "?fs ! fi = f"
    by (simp_all add: fn_at_def nth_opt_def split: if_splits)
  from c have ci: "ci < length (ctrs f)" and c_eq: "ctrs f ! ci = c"
    by (simp_all add: nth_opt_def split: if_splits)
  have step: "clear_value fi ci i (S i) = Some (S (Suc i))" if i: "i < length (values c)" for i
    unfolding S_def clear_value_def
    using fi ci i map_take_drop_update [of i "values c" "\<lambda>_. 0"]
    by (simp add: fn_at_def nth_opt_def with_fns_fold)
  have "for_loop [0..<length (values c)] (clear_value fi ci) (S 0) = Some (S (length (values c)))"
    by (rule for_loop_upt) (rule step)
  moreover have "S 0 = m"
  proof -
    have "(ctrs f)[ci := c] = ctrs f" unfolding c_eq [symmetric] by (rule list_update_id)
    then have "f\<lparr>ctrs := (ctrs f)[ci := c]\<rparr> = f" by simp
    moreover have "?fs[fi := f] = ?fs" unfolding f_eq [symmetric] by (rule list_update_id)
    ultimately have "?fs[fi := f\<lparr>ctrs := (ctrs f)[ci := c]\<rparr>] = ?fs" by simp
    then show ?thesis by (simp add: S_def)
  qed
  moreover have "map (\<lambda>_. 0) (values c) = replicate (length (values c)) (0 :: gcov_type)"
    by (simp add: map_replicate_const)
  ultimately show ?thesis by (simp add: S_def zero_ctr_def)
qed

lemma active_below_with_fns [simp]: "active_below (gi (with_fns m fs)) j = active_below (gi m) j"
  by (simp add: active_below_def)

lemma clear_counter_skip:
  assumes "ct_idx < GCOV_COUNTERS (gi m)" and "merge (gi m) ! ct_idx = None"
  shows "clear_counter fi ct_idx (m, ci) = Some (m, ci)"
  using assms by (simp add: clear_counter_def nth_opt_def GCOV_COUNTERS_def)

lemma clear_counter_active:
  assumes j: "ct_idx < GCOV_COUNTERS (gi m)" and act: "merge (gi m) ! ct_idx \<noteq> None"
    and f: "fn_at m fi = Some f" and c: "nth_opt (ctrs f) ci = Some c" and v: "valid_ctr c"
  shows "clear_counter fi ct_idx (m, ci)
         = Some (with_fns m ((functions (gi m))[fi := f\<lparr>ctrs := (ctrs f)[ci := zero_ctr c]\<rparr>]),
                 ci + 1)"
proof -
  have n: "unat (num c) = length (values c)" using v by (simp add: valid_ctr_def)
  have "ctr_at m fi ci = Some c" using f c by (simp add: ctr_at_def)
  then show ?thesis
    unfolding clear_counter_def
    using j act clear_values_loop [OF f c]
    by (simp add: nth_opt_def GCOV_COUNTERS_def n)
qed

lemma clear_counters_loop:
  assumes f: "fn_at m fi = Some f" and v: "valid_fn (gi m) f"
  shows "for_loop [0..<GCOV_COUNTERS (gi m)] (clear_counter fi) (m, 0)
         = Some (with_fns m ((functions (gi m))[fi := zero_fn f]), length (ctrs f))"
proof -
  let ?g = "gi m" and ?n = "GCOV_COUNTERS (gi m)" and ?fs = "functions (gi m)"
  let ?cs = "\<lambda>k. map zero_ctr (take k (ctrs f)) @ drop k (ctrs f)"
  define S :: "nat \<Rightarrow> gcov_mem \<times> nat" where
    "S j = (with_fns m ((functions (gi m))
              [fi := f\<lparr>ctrs := map zero_ctr (take (length (active_below (gi m) j)) (ctrs f))
                               @ drop (length (active_below (gi m) j)) (ctrs f)\<rparr>]),
            length (active_below (gi m) j))" for j
  from f have fi: "fi < length ?fs" and f_eq: "?fs ! fi = f"
    by (simp_all add: fn_at_def nth_opt_def split: if_splits)
  have len: "length (ctrs f) = length (active_below ?g ?n)"
    using v by (simp add: valid_fn_def active_below_all)
  have step: "clear_counter fi j (S j) = Some (S (Suc j))" if j: "j < ?n" for j
  proof (cases "merge ?g ! j = None")
    case True
    have "clear_counter fi j (S j) = Some (S j)"
      unfolding S_def using j True by (intro clear_counter_skip) simp_all
    moreover have "S (Suc j) = S j"
      using True by (simp add: S_def active_below_Suc)
    ultimately show ?thesis by simp
  next
    case False
    let ?k = "length (active_below ?g j)"
    let ?m = "with_fns m (?fs[fi := f\<lparr>ctrs := ?cs ?k\<rparr>])"
    have k: "?k < length (ctrs f)"
      unfolding len using j False by (rule length_active_below_less)
    have f': "fn_at ?m fi = Some (f\<lparr>ctrs := ?cs ?k\<rparr>)"
      using fi by (simp add: fn_at_def nth_opt_def)
    have c': "nth_opt (ctrs (f\<lparr>ctrs := ?cs ?k\<rparr>)) ?k = Some (ctrs f ! ?k)"
      using k by (simp add: nth_opt_def nth_append)
    have vc: "valid_ctr (ctrs f ! ?k)"
      using v k by (simp add: valid_fn_def list_all_length)
    have j': "j < GCOV_COUNTERS (gi ?m)" and act': "merge (gi ?m) ! j \<noteq> None"
      using j False by simp_all
    from clear_counter_active [OF j' act' f' c' vc]
    show ?thesis
      using False k map_take_drop_update [of ?k "ctrs f" zero_ctr]
      by (simp add: S_def active_below_Suc)
  qed
  have "for_loop [0..<?n] (clear_counter fi) (S 0) = Some (S ?n)"
    by (rule for_loop_upt) (rule step)
  moreover have "S 0 = (m, 0)"
  proof -
    have "?fs[fi := f] = ?fs" unfolding f_eq [symmetric] by (rule list_update_id)
    then show ?thesis by (simp add: S_def)
  qed
  ultimately show ?thesis by (simp add: S_def len [symmetric] zero_fn_def)
qed

lemma clear_function_step:
  assumes f: "fn_at m fi = Some f" and v: "valid_fn (gi m) f"
  shows "clear_function fi m = Some (with_fns m ((functions (gi m))[fi := zero_fn f]))"
  unfolding clear_function_def using f clear_counters_loop [OF f v] by simp

lemma valid_fn_with_fns [simp]: "valid_fn (gi (with_fns m fs)) f = valid_fn (gi m) f"
  by (simp add: valid_fn_def active_slots_def)

lemma clear_counters_zero:
  assumes v: "valid_info (gi m)"
  shows "gcov_clear_counters m = Some (m\<lparr>gi := zero_info (gi m)\<rparr>)"
proof -
  let ?fs = "functions (gi m)"
  define S :: "nat \<Rightarrow> gcov_mem" where
    "S i = with_fns m (map zero_fn (take i (functions (gi m))) @ drop i (functions (gi m)))" for i
  have n: "unat (n_functions (gi m)) = length ?fs" using v by (simp add: valid_info_def)
  have step: "clear_function i (S i) = Some (S (Suc i))" if i: "i < length ?fs" for i
  proof -
    have f: "fn_at (S i) i = Some (?fs ! i)"
      using i by (simp add: S_def fn_at_def nth_opt_def nth_append)
    have vf: "valid_fn (gi (S i)) (?fs ! i)"
      using v i by (simp add: S_def valid_info_def list_all_length)
    from clear_function_step [OF f vf] show ?thesis
      using i map_take_drop_update [of i ?fs zero_fn] by (simp add: S_def)
  qed
  have "for_loop [0..<length ?fs] clear_function (S 0) = Some (S (length ?fs))"
    by (rule for_loop_upt) (rule step)
  then show ?thesis
    by (simp add: S_def gcov_clear_counters_def n with_fns_def zero_info_def)
qed

subsection \<open>The size and the shape of the stream\<close>

lemma written_None [simp]: "written \<lparr>gi = g, buffer = None\<rparr> ws = \<lparr>gi = g, buffer = None\<rparr>"
  by (simp add: written_def)

lemma written_Some [simp]:
  "written \<lparr>gi = g, buffer = Some b\<rparr> ws = \<lparr>gi = g, buffer = Some (ws @ drop (length ws) b)\<rparr>"
  by (simp add: written_def)

lemma room_None [simp]: "room M \<lparr>gi = g, buffer = None\<rparr> n"
  by (simp add: room_def)

lemma room_Some [simp]: "room M \<lparr>gi = g, buffer = Some b\<rparr> n \<longleftrightarrow> n \<le> length b \<and> length b < M"
  by (simp add: room_def)

lemma length_groups:
  assumes "list_all valid_ctr cs'"
  shows "length (concat (map (\<lambda>(kind, c). counter_group_record cs kind c) (zip ks cs')))
         = (\<Sum>(kind, c)\<leftarrow>zip ks cs'. 2 + 2 * unat (num c))"
  using assms
proof (induction cs' arbitrary: ks)
  case Nil
  show ?case by simp
next
  case (Cons c cs')
  then show ?case
    by (cases ks) (simp_all add: length_counter_group_record valid_ctr_def)
qed

lemma length_function_stream:
  assumes "valid_fn g f"
  shows "length (function_stream cs g f)
         = 5 + (\<Sum>(kind, c)\<leftarrow>zip (active_slots g) (ctrs f). 2 + 2 * unat (num c))"
  using assms length_groups [of "ctrs f" cs "active_slots g"]
  by (simp add: function_stream_def function_record_def valid_fn_def)

lemma length_function_streams:
  assumes "list_all (valid_fn g) fs"
  shows "length (concat (map (function_stream cs g) fs))
         = (\<Sum>f\<leftarrow>fs. 5 + (\<Sum>(kind, c)\<leftarrow>zip (active_slots g) (ctrs f). 2 + 2 * unat (num c)))"
  using assms by (induction fs) (simp_all add: length_function_stream)

lemma length_gcda_stream:
  assumes "valid_info g"
  shows "length (gcda_stream cs g) = closed_form_words g"
  using assms length_function_streams [of g "functions g" cs]
  by (simp add: gcda_stream_def header_record_def closed_form_words_def valid_info_def)

lemma unat_bytes:
  assumes "4 * n < 2 ^ LENGTH('s::len)"
  shows "unat ((of_nat n :: 's word) * 4) = 4 * n"
proof -
  have "(of_nat n :: 's word) * 4 = of_nat (4 * n)" by simp
  then show ?thesis using assms by (simp only: unat_of_nat mod_less)
qed

lemma sorted_active_slots: "sorted_wrt (<) (active_slots g)"
  unfolding active_slots_def by (intro sorted_wrt_filter) simp

lemma set_active_slots:
  "set (active_slots g) = {k. k < GCOV_COUNTERS g \<and> merge g ! k \<noteq> None}"
  by (auto simp: active_slots_def)

lemma gcda_stream_records:
  "gcda_stream cs g
   = concat (header_record cs g
       # concat (map (\<lambda>f. function_record cs f
                     # map (\<lambda>(kind, c). counter_group_record cs kind c)
                         (zip (active_slots g) (ctrs f)))
                 (functions g)))"
proof -
  have "concat (map (function_stream cs g) fs)
        = concat (concat (map (\<lambda>f. function_record cs f
                     # map (\<lambda>(kind, c). counter_group_record cs kind c)
                         (zip (active_slots g) (ctrs f))) fs))" for fs
    by (induction fs) (simp_all add: function_stream_def)
  then show ?thesis by (simp add: gcda_stream_def)
qed

lemma gcda_stream_words:
  "gcda_stream cs g
   = [GCOV_DATA_MAGIC cs, version g, stamp g, checksum g]
     @ concat (map (\<lambda>f. [GCOV_TAG_FUNCTION cs, 3, ident f, lineno_checksum f, cfg_checksum f]
                  @ concat (map (\<lambda>(kind, c). [GCOV_TAG_FOR_COUNTER cs kind, 2 * num c]
                                @ concat (map (\<lambda>v. [of_nat (unat v mod 2 ^ 32),
                                                     of_nat (unat v div 2 ^ 32)]) (values c)))
                              (zip (active_slots g) (ctrs f))))
               (functions g))"
  unfolding gcda_stream_def header_record_def function_stream_def function_record_def
    counter_group_record_def counter_words_def
  by (rule refl)

subsection \<open>The example data set\<close>

lemma scenario_active_slots:
  "active_slots (scenario_info (replicate k None @ Some fn # replicate j None)) = [k]"
proof -
  let ?mrg = "replicate k None @ Some fn # replicate j None"
  let ?P = "\<lambda>ct_idx. ?mrg ! ct_idx \<noteq> None"
  have "[0..<k + Suc j] = [0..<k] @ [k..<k + Suc j]"
    by (rule upt_add_eq_append) simp
  also have "[k..<k + Suc j] = k # [Suc k..<k + Suc j]"
    by (rule upt_conv_Cons) simp
  finally have split: "[0..<k + Suc j] = [0..<k] @ k # [Suc k..<k + Suc j]" .
  have 1: "filter ?P [0..<k] = []"
    by (simp add: filter_empty_conv nth_append)
  have "?mrg ! x = None" if "Suc k \<le> x" and "x < k + Suc j" for x
  proof -
    from that obtain d where x: "x = k + Suc d" and d: "d < j"
      by (metis add_Suc_right less_iff_Suc_add nat_add_left_cancel_less not_less_eq_eq not_less)
    show ?thesis unfolding x using d by (simp add: nth_append)
  qed
  then have 2: "filter ?P [Suc k..<k + Suc j] = []"
    unfolding filter_empty_conv set_upt by simp
  have 3: "?P k" by (simp add: nth_append)
  have "filter ?P [0..<k + Suc j] = [k]"
    unfolding split filter_append filter.simps 1 2 using 3 by simp
  then show ?thesis
    by (simp add: active_slots_def GCOV_COUNTERS_def scenario_info_def)
qed

lemma scenario_valid:
  "valid_info (scenario_info (replicate k None @ Some fn # replicate j None))"
  using scenario_active_slots [of k fn j]
  by (simp add: valid_info_def valid_fn_def valid_ctr_def scenario_info_def scenario_fn_def)

lemma counter_words_5: "counter_words 5 = [5, 0]"
  by (simp add: counter_words_def)

lemma counter_words_300000000000: "counter_words 300000000000 = [0xD964B800, 0x45]"
  by (simp add: counter_words_def)

lemma scenario_stream:
  "gcda_stream cs (scenario_info (replicate k None @ Some fn # replicate j None))
   = [GCOV_DATA_MAGIC cs, 0x1234, 100, 200,
      GCOV_TAG_FUNCTION cs, 3, 7, 0, 0,
      GCOV_TAG_FOR_COUNTER cs k, 4, 5, 0, 0xD964B800, 0x45]"
  using scenario_active_slots [of k fn j]
  by (simp add: gcda_stream_def header_record_def function_stream_def function_record_def
        counter_group_record_def counter_words_5 counter_words_300000000000
        scenario_info_def scenario_fn_def)

subsection \<open>The encoder leaves the data set alone\<close>

text \<open>Every returning run, on any memory, ends with the data set it started with.\<close>

lemma store_unsigned_gi: "store_gcov_unsigned m off v = Some (m', n) \<Longrightarrow> gi m' = gi m"
  by (auto simp: store_gcov_unsigned_def split: option.splits if_splits)

lemma store_tag_length_gi: "store_gcov_tag_length m off t l = Some (m', n) \<Longrightarrow> gi m' = gi m"
  by (auto simp: store_gcov_tag_length_def split: option.splits if_splits)

lemma store_counter_gi: "store_gcov_counter m off v = Some (m', n) \<Longrightarrow> gi m' = gi m"
  by (auto simp: store_gcov_counter_def split: option.splits if_splits)

lemma convert_value_gi:
  "convert_value fi ci i (m, pos) = Some (m', pos') \<Longrightarrow> gi m' = gi m"
  by (auto simp: convert_value_def dest: store_counter_gi split: bind_splits)

lemma convert_values_gi:
  assumes "for_loop ixs (convert_value fi ci) (m, pos) = Some (m', pos')"
  shows "gi m' = gi m"
  using for_loop_preserves [of "convert_value fi ci" "\<lambda>s. gi (fst s) = gi m" ixs "(m, pos)" "(m', pos')"]
    assms convert_value_gi
  by fastforce

lemma convert_counter_gi:
  assumes "convert_counter cs fi j (m, pos, ci) = Some (m', pos', ci')"
  shows "gi m' = gi m"
  using assms
  by (auto simp: convert_counter_def Let_def
        dest!: store_tag_length_gi convert_values_gi split: bind_splits if_splits)

lemma convert_counters_gi:
  assumes "for_loop ixs (convert_counter cs fi) (m, pos, ci) = Some (m', pos', ci')"
  shows "gi m' = gi m"
  using for_loop_preserves [of "convert_counter cs fi" "\<lambda>s. gi (fst s) = gi m" ixs
      "(m, pos, ci)" "(m', pos', ci')"]
    assms convert_counter_gi
  by fastforce

lemma convert_function_gi:
  assumes "convert_function cs fi (m, pos) = Some (m', pos')"
  shows "gi m' = gi m"
  using assms
  by (auto simp: convert_function_def Let_def
        dest!: store_tag_length_gi store_unsigned_gi convert_counters_gi split: bind_splits)

lemma convert_functions_gi:
  assumes "for_loop ixs (convert_function cs) (m, pos) = Some (m', pos')"
  shows "gi m' = gi m"
  using for_loop_preserves [of "convert_function cs" "\<lambda>s. gi (fst s) = gi m" ixs
      "(m, pos)" "(m', pos')"]
    assms convert_function_gi
  by fastforce

lemma convert_to_gcda_gi:
  assumes "gcov_convert_to_gcda cs m = Some (m', n)"
  shows "gi m' = gi m"
  using assms
  by (auto simp: gcov_convert_to_gcda_def Let_def
        dest!: store_tag_length_gi store_unsigned_gi convert_functions_gi split: bind_splits)

subsection \<open>The example with one active slot between two unused ones\<close>

lemma witness_valid: "valid_info (scenario_info [None, Some 42, None])"
  using scenario_valid [of "Suc 0" 42 "Suc 0"] by simp

lemma witness_stream:
  "gcda_stream cs (scenario_info [None, Some 42, None])
   = [GCOV_DATA_MAGIC cs, 0x1234, 100, 200,
      GCOV_TAG_FUNCTION cs, 3, 7, 0, 0,
      GCOV_TAG_FOR_COUNTER cs (Suc 0), 4, 5, 0, 0xD964B800, 0x45]"
  using scenario_stream [of cs "Suc 0" 42 "Suc 0"] by simp

lemma witness_words: "closed_form_words (scenario_info [None, Some 42, None]) = 15"
  using length_gcda_stream [OF witness_valid, of gcc_tags] by (simp add: witness_stream)

lemma replicate_15: "replicate 15 (0 :: gcov_unsigned_t) = [0, 0, 0, 0, 0, 0, 0, 0, 0, 0, 0, 0, 0, 0, 0]"
  by (simp add: numeral_eq_Suc)

lemma scenario_null:
  "gcov_convert_to_gcda cs
     \<lparr>gi = scenario_info (replicate k None @ Some fn # replicate j None), buffer = None\<rparr>
   = Some (\<lparr>gi = scenario_info (replicate k None @ Some fn # replicate j None), buffer = None\<rparr>,
           60 :: 's::len word)"
  using convert_to_gcda_written
    [of "\<lparr>gi = scenario_info (replicate k None @ Some fn # replicate j None), buffer = None\<rparr>" cs,
     where 's = 's]
  by (simp add: scenario_valid scenario_stream)

lemma scenario_buffer:
  assumes "15 < (2 :: nat) ^ LENGTH('s::len)"
  shows "gcov_convert_to_gcda cs
     \<lparr>gi = scenario_info (replicate k None @ Some fn # replicate j None),
      buffer = Some (replicate 15 0)\<rparr>
   = Some (\<lparr>gi = scenario_info (replicate k None @ Some fn # replicate j None),
            buffer = Some [GCOV_DATA_MAGIC cs, 0x1234, 100, 200,
                           GCOV_TAG_FUNCTION cs, 3, 7, 0, 0,
                           GCOV_TAG_FOR_COUNTER cs k, 4, 5, 0, 0xD964B800, 0x45]\<rparr>,
           60 :: 's word)"
  using convert_to_gcda_written
    [of "\<lparr>gi = scenario_info (replicate k None @ Some fn # replicate j None),
          buffer = Some (replicate 15 0)\<rparr>" cs, where 's = 's] assms
  by (simp add: scenario_valid scenario_stream)

subsection \<open>Encoding after a reset\<close>

lemma zero_info_simps [simp]:
  "functions (zero_info g) = map zero_fn (functions g)"
  "n_functions (zero_info g) = n_functions g"
  "merge (zero_info g) = merge g"
  "version (zero_info g) = version g"
  "stamp (zero_info g) = stamp g"
  "checksum (zero_info g) = checksum g"
  by (simp_all add: zero_info_def)

lemma active_slots_zero [simp]: "active_slots (zero_info g) = active_slots g"
  by (simp add: active_slots_def GCOV_COUNTERS_def)

lemma valid_ctr_zero: "valid_ctr c \<Longrightarrow> valid_ctr (zero_ctr c)"
  by (simp add: valid_ctr_def zero_ctr_def)

lemma valid_fn_zero: "valid_fn g f \<Longrightarrow> valid_fn (zero_info g) (zero_fn f)"
  by (simp add: valid_fn_def zero_fn_def list_all_iff valid_ctr_zero)

lemma valid_info_zero: "valid_info g \<Longrightarrow> valid_info (zero_info g)"
  by (simp add: valid_info_def list_all_iff valid_fn_zero)

lemma zero_words: "concat (replicate n (counter_words 0)) = replicate (2 * n) 0"
  by (induction n) (simp_all add: counter_words_def)

lemma zero_group_record:
  "counter_group_record cs kind (zero_ctr c)
   = [GCOV_TAG_FOR_COUNTER cs kind, 2 * num c] @ replicate (2 * length (values c)) 0"
  by (simp add: counter_group_record_def zero_ctr_def zero_words)

lemma zero_function_stream:
  "function_stream cs (zero_info g) (zero_fn f)
   = function_record cs f
     @ concat (map (\<lambda>(kind, c). [GCOV_TAG_FOR_COUNTER cs kind, 2 * num c]
                       @ replicate (2 * length (values c)) 0)
                (zip (active_slots g) (ctrs f)))"
proof -
  have "map (\<lambda>(kind, c). counter_group_record cs kind c) (zip ks (map zero_ctr xs))
        = map (\<lambda>(kind, c). [GCOV_TAG_FOR_COUNTER cs kind, 2 * num c]
                       @ replicate (2 * length (values c)) 0) (zip ks xs)" for ks xs
  proof (induction xs arbitrary: ks)
    case Nil
    show ?case by simp
  next
    case (Cons x xs)
    then show ?case by (cases ks) (simp_all add: zero_group_record)
  qed
  then show ?thesis
    by (simp add: function_stream_def function_record_def zero_fn_def)
qed

lemma zero_gcda_stream:
  "gcda_stream cs (zero_info g)
   = header_record cs g
     @ concat (map (\<lambda>f. function_record cs f
                  @ concat (map (\<lambda>(kind, c). [GCOV_TAG_FOR_COUNTER cs kind, 2 * num c]
                                    @ replicate (2 * length (values c)) 0)
                             (zip (active_slots g) (ctrs f))))
               (functions g))"
proof -
  show ?thesis
    by (simp add: gcda_stream_def header_record_def zero_function_stream comp_def)
qed

lemma length_zero_group:
  "length (concat (map (\<lambda>(kind, c). [GCOV_TAG_FOR_COUNTER cs kind, 2 * num c]
                       @ replicate (2 * length (values c)) 0) zs))
   = length (concat (map (\<lambda>(kind, c). counter_group_record cs kind c) zs))"
  by (induction zs) (auto simp: length_counter_group_record)

lemma length_zero_gcda_stream: "length (gcda_stream cs (zero_info g)) = length (gcda_stream cs g)"
proof -
  have "length (function_stream cs (zero_info g) (zero_fn f)) = length (function_stream cs g f)" for f
    unfolding zero_function_stream
    using length_zero_group [of cs "zip (active_slots g) (ctrs f)"]
    by (simp add: function_stream_def)
  then have "length (concat (map (function_stream cs (zero_info g)) (map zero_fn fs)))
        = length (concat (map (function_stream cs g) fs))" for fs
    by (induction fs) simp_all
  then show ?thesis
    by (simp add: gcda_stream_def header_record_def)
qed

subsection \<open>The stream slot by slot\<close>

text \<open>
  The counter records of a function, read off the merge array slot by slot: an
  unused slot gives no words, and an active slot gives the record of the group
  whose index is the number of active slots below it.
\<close>

lemma groups_below_slots:
  assumes "length (ctrs f) = length (active_below g n)" and "j \<le> n"
  shows "groups_below cs g f j
         = concat (map (\<lambda>kind. if merge g ! kind = None then []
                               else counter_group_record cs kind
                                      (ctrs f ! length (active_below g kind)))
                     [0..<j])"
  using assms(2)
proof (induction j)
  case 0
  show ?case by simp
next
  case (Suc j)
  then have ih: "groups_below cs g f j
         = concat (map (\<lambda>kind. if merge g ! kind = None then []
                               else counter_group_record cs kind
                                      (ctrs f ! length (active_below g kind)))
                     [0..<j])"
    by simp
  show ?case
  proof (cases "merge g ! j = None")
    case True
    then show ?thesis by (simp add: groups_below_skip ih)
  next
    case False
    have "length (active_below g j) < length (ctrs f)"
      unfolding assms(1) using Suc.prems False by (intro length_active_below_less) simp_all
    with False have "groups_below cs g f (Suc j)
           = groups_below cs g f j
               @ counter_group_record cs j (ctrs f ! length (active_below g j))"
      by (rule groups_below_active)
    then show ?thesis by (simp add: ih False)
  qed
qed

lemma function_stream_slots:
  assumes "valid_fn g f"
  shows "function_stream cs g f
         = function_record cs f
           @ concat (map (\<lambda>kind. if merge g ! kind = None then []
                                 else counter_group_record cs kind
                                        (ctrs f ! length (active_below g kind)))
                       [0..<GCOV_COUNTERS g])"
proof -
  have "length (ctrs f) = length (active_below g (GCOV_COUNTERS g))"
    using assms by (simp add: valid_fn_def active_below_all)
  from groups_below_slots [OF this order_refl] show ?thesis
    by (simp add: function_stream_groups)
qed

lemma gcda_stream_slots:
  assumes "valid_info g"
  shows "gcda_stream cs g
         = header_record cs g
           @ concat (map (\<lambda>f. function_record cs f
                @ concat (map (\<lambda>kind. if merge g ! kind = None then []
                                      else counter_group_record cs kind
                                             (ctrs f ! length (active_below g kind)))
                            [0..<GCOV_COUNTERS g]))
               (functions g))"
proof -
  have "map (function_stream cs g) (functions g)
        = map (\<lambda>f. function_record cs f
                @ concat (map (\<lambda>kind. if merge g ! kind = None then []
                                      else counter_group_record cs kind
                                             (ctrs f ! length (active_below g kind)))
                            [0..<GCOV_COUNTERS g]))
            (functions g)"
  proof (rule map_cong [OF refl])
    fix f
    assume "f \<in> set (functions g)"
    then have "valid_fn g f" using assms by (simp add: valid_info_def list_all_iff)
    then show "function_stream cs g f
        = function_record cs f
                @ concat (map (\<lambda>kind. if merge g ! kind = None then []
                                      else counter_group_record cs kind
                                             (ctrs f ! length (active_below g kind)))
                            [0..<GCOV_COUNTERS g])"
      by (rule function_stream_slots)
  qed
  then show ?thesis by (simp only: gcda_stream_def)
qed

lemma active_below_index:
  "k < length (active_below g n) \<Longrightarrow> length (active_below g (active_below g n ! k)) = k"
proof (induction n)
  case 0
  then show ?case by simp
next
  case (Suc n)
  show ?case
  proof (cases "k < length (active_below g n)")
    case True
    then show ?thesis using Suc.IH by (simp add: active_below_Suc nth_append)
  next
    case False
    with Suc.prems have "merge g ! n \<noteq> None" and "k = length (active_below g n)"
      by (auto simp: active_below_Suc split: if_splits)
    then show ?thesis by (simp add: active_below_Suc nth_append)
  qed
qed

lemma active_slots_index:
  "k < length (active_slots g) \<Longrightarrow> length (active_below g (active_slots g ! k)) = k"
  using active_below_index [of k g "GCOV_COUNTERS g"] by (simp add: active_below_all)

lemma active_group_index:
  assumes "valid_info g" and "f \<in> set (functions g)"
    and "kind < GCOV_COUNTERS g" and "merge g ! kind \<noteq> None"
  shows "length (active_below g kind) < length (ctrs f)"
proof -
  have "length (ctrs f) = length (active_below g (GCOV_COUNTERS g))"
    using assms(1,2) by (simp add: valid_info_def valid_fn_def list_all_iff active_below_all)
  then show ?thesis using length_active_below_less [OF assms(3,4)] by simp
qed

lemma length_slot_records:
  assumes "valid_info g" and "f \<in> set (functions g)"
  shows "length (concat (map (\<lambda>kind. if merge g ! kind = None then []
                                 else counter_group_record cs kind
                                        (ctrs f ! length (active_below g kind)))
                       [0..<GCOV_COUNTERS g]))
         = (\<Sum>kind\<leftarrow>[0..<GCOV_COUNTERS g]. if merge g ! kind = None then 0
               else 2 + 2 * unat (num (ctrs f ! length (active_below g kind))))"
proof -
  have vf: "valid_fn g f" using assms by (simp add: valid_info_def list_all_iff)
  have "length (if merge g ! kind = None then []
                 else counter_group_record cs kind (ctrs f ! length (active_below g kind)))
        = (if merge g ! kind = None then 0
           else 2 + 2 * unat (num (ctrs f ! length (active_below g kind))))"
    if "kind \<in> set [0..<GCOV_COUNTERS g]" for kind
  proof (cases "merge g ! kind = None")
    case True
    then show ?thesis by simp
  next
    case False
    from that have "kind < GCOV_COUNTERS g" by simp
    from active_group_index [OF assms this False]
    have "valid_ctr (ctrs f ! length (active_below g kind))"
      using vf by (simp add: valid_fn_def list_all_length)
    then show ?thesis
      using False by (simp add: length_counter_group_record valid_ctr_def)
  qed
  then have "map (\<lambda>kind. length (if merge g ! kind = None then []
                 else counter_group_record cs kind (ctrs f ! length (active_below g kind))))
               [0..<GCOV_COUNTERS g]
        = map (\<lambda>kind. if merge g ! kind = None then 0
           else 2 + 2 * unat (num (ctrs f ! length (active_below g kind))))
               [0..<GCOV_COUNTERS g]"
    by (intro map_cong refl)
  then show ?thesis
    by (simp only: length_concat map_map comp_def)
qed

lemma closed_form_words_slots:
  assumes "valid_info g"
  shows "closed_form_words g
         = 4 + (\<Sum>f\<leftarrow>functions g. 5 +
                  (\<Sum>kind\<leftarrow>[0..<GCOV_COUNTERS g]. if merge g ! kind = None then 0
                     else 2 + 2 * unat (num (ctrs f ! length (active_below g kind)))))"
proof -
  have "length (function_record cs f
                @ concat (map (\<lambda>kind. if merge g ! kind = None then []
                                      else counter_group_record cs kind
                                             (ctrs f ! length (active_below g kind)))
                            [0..<GCOV_COUNTERS g]))
        = 5 + (\<Sum>kind\<leftarrow>[0..<GCOV_COUNTERS g]. if merge g ! kind = None then 0
                     else 2 + 2 * unat (num (ctrs f ! length (active_below g kind))))"
    if "f \<in> set (functions g)" for f and cs :: gcov_tags
    using length_slot_records [OF assms that, of cs] by (simp add: function_record_def)
  then have "map (\<lambda>f. length (function_record cs f
                @ concat (map (\<lambda>kind. if merge g ! kind = None then []
                                      else counter_group_record cs kind
                                             (ctrs f ! length (active_below g kind)))
                            [0..<GCOV_COUNTERS g]))) (functions g)
        = map (\<lambda>f. 5 + (\<Sum>kind\<leftarrow>[0..<GCOV_COUNTERS g]. if merge g ! kind = None then 0
                     else 2 + 2 * unat (num (ctrs f ! length (active_below g kind)))))
            (functions g)" for cs :: gcov_tags
    by (intro map_cong refl)
  then have "length (gcda_stream cs g)
        = 4 + (\<Sum>f\<leftarrow>functions g. 5 +
                  (\<Sum>kind\<leftarrow>[0..<GCOV_COUNTERS g]. if merge g ! kind = None then 0
                     else 2 + 2 * unat (num (ctrs f ! length (active_below g kind)))))"
    for cs :: gcov_tags
    unfolding gcda_stream_slots [OF assms]
    by (simp only: length_append length_concat map_map comp_def)
       (simp add: header_record_def)
  from this [of gcc_tags] length_gcda_stream [OF assms, of gcc_tags] show ?thesis by simp
qed

subsection \<open>The example with an unused slot between two active ones\<close>

lemma mixed_fields:
  "functions mixed_info =
       [\<lparr>key = 0, ident = 7, lineno_checksum = 0, cfg_checksum = 0,
          ctrs = [\<lparr>num = 1, values = [5]\<rparr>, \<lparr>num = 2, values = [6, 300000000000]\<rparr>]\<rparr>,
        \<lparr>key = 0, ident = 8, lineno_checksum = 1, cfg_checksum = 2,
          ctrs = [\<lparr>num = 0, values = []\<rparr>, \<lparr>num = 1, values = [9]\<rparr>]\<rparr>]"
  "merge mixed_info = [Some 42, None, Some 43]"
  "n_functions mixed_info = 2"
  "version mixed_info = 0x1234" "stamp mixed_info = 100" "checksum mixed_info = 200"
  by (simp_all add: mixed_info_def)

lemma mixed_counters: "GCOV_COUNTERS mixed_info = 3"
  by (simp add: GCOV_COUNTERS_def mixed_fields)

lemma mixed_upt: "[0..<3] = [0, Suc 0, 2]"
  by (simp add: upt_rec)

lemma mixed_active_slots: "active_slots mixed_info = [0, 2]"
  by (simp add: active_slots_def mixed_counters mixed_upt mixed_fields)

lemma mixed_active_below:
  "active_below mixed_info 0 = []"
  "active_below mixed_info 2 = [0]"
  "active_below mixed_info (Suc (Suc 0)) = [0]"
  by (simp_all add: active_below_def upt_rec [of 0 2] upt_rec [of 1 2] mixed_fields)

lemma mixed_valid: "valid_info mixed_info"
  by (simp add: valid_info_def valid_fn_def valid_ctr_def mixed_active_slots mixed_fields)

lemma mixed_words: "closed_form_words mixed_info = 30"
  by (simp add: closed_form_words_def mixed_active_slots mixed_fields)

section \<open>The claims of the specification\<close>

text \<open>
  C1: for a structurally valid data set, the call without a buffer and the call
  with a buffer (large enough for the stream, and itself an array that fits the
  range of \<^verbatim>\<open>size_t\<close>) return the same count \<open>n\<close>; the call with a buffer
  overwrites exactly the first \<open>n / 4\<close> words of the buffer with the stream, which
  does not depend on the old buffer contents, and leaves the rest untouched.
\<close>

theorem convert_size_consistent:
  fixes b :: "gcov_unsigned_t list"
  assumes "valid_info g"
    and "length (gcda_stream cs g) \<le> length b"
    and "4 * length b < 2 ^ LENGTH('s::len)"
  shows "\<exists>n :: 's word.
           gcov_convert_to_gcda cs \<lparr>gi = g, buffer = None\<rparr> = Some (\<lparr>gi = g, buffer = None\<rparr>, n)
         \<and> gcov_convert_to_gcda cs \<lparr>gi = g, buffer = Some b\<rparr>
             = Some (\<lparr>gi = g, buffer = Some (gcda_stream cs g @ drop (length (gcda_stream cs g)) b)\<rparr>, n)
         \<and> unat n = 4 * length (gcda_stream cs g)"
proof -
  let ?n = "(of_nat (length (gcda_stream cs g)) :: 's word) * 4"
  have 1: "gcov_convert_to_gcda cs \<lparr>gi = g, buffer = None\<rparr> = Some (\<lparr>gi = g, buffer = None\<rparr>, ?n)"
    using convert_to_gcda_written [of "\<lparr>gi = g, buffer = None\<rparr>" cs, where 's = 's] assms(1)
    by simp
  have 2: "gcov_convert_to_gcda cs \<lparr>gi = g, buffer = Some b\<rparr>
         = Some (\<lparr>gi = g, buffer = Some (gcda_stream cs g @ drop (length (gcda_stream cs g)) b)\<rparr>, ?n)"
    using convert_to_gcda_written [of "\<lparr>gi = g, buffer = Some b\<rparr>" cs, where 's = 's] assms
    by simp
  have "4 * length (gcda_stream cs g) < 2 ^ LENGTH('s)" using assms(2,3) by simp
  then have "unat ?n = 4 * length (gcda_stream cs g)" by (rule unat_bytes)
  with 1 2 show ?thesis by blast
qed

theorem convert_size_consistent_witness:
  "valid_info (scenario_info [None, Some 42, None])
   \<and> length (gcda_stream gcc_tags (scenario_info [None, Some 42, None]))
       \<le> length (replicate 16 (0 :: gcov_unsigned_t))
   \<and> 4 * length (replicate 16 (0 :: gcov_unsigned_t)) < 2 ^ LENGTH(32)
   \<and> (\<exists>n :: 32 word.
         gcov_convert_to_gcda gcc_tags \<lparr>gi = scenario_info [None, Some 42, None], buffer = None\<rparr>
           = Some (\<lparr>gi = scenario_info [None, Some 42, None], buffer = None\<rparr>, n)
       \<and> gcov_convert_to_gcda gcc_tags
             \<lparr>gi = scenario_info [None, Some 42, None], buffer = Some (replicate 16 0)\<rparr>
           = Some (\<lparr>gi = scenario_info [None, Some 42, None],
                    buffer = Some (gcda_stream gcc_tags (scenario_info [None, Some 42, None])
                      @ drop (length (gcda_stream gcc_tags (scenario_info [None, Some 42, None])))
                          (replicate 16 0))\<rparr>, n)
       \<and> unat n = 4 * length (gcda_stream gcc_tags (scenario_info [None, Some 42, None])))"
proof -
  have h1: "valid_info (scenario_info [None, Some 42, None])" by (rule witness_valid)
  have h2: "length (gcda_stream gcc_tags (scenario_info [None, Some 42, None]))
              \<le> length (replicate 16 (0 :: gcov_unsigned_t))"
    by (simp add: witness_stream)
  have h3: "4 * length (replicate 16 (0 :: gcov_unsigned_t)) < 2 ^ LENGTH(32)" by simp
  from convert_size_consistent [OF h1 h2 h3] h1 h2 h3 show ?thesis by blast
qed

text \<open>
  C2: the encoded stream is the header record, then for every function of the
  data set, in the order of the function array, its function record immediately
  followed by one counter-group record for each active slot, in ascending slot
  order, paired in that order with the function's counter groups.
\<close>

theorem convert_stream_order:
  fixes b :: "gcov_unsigned_t list"
  assumes "valid_info g"
    and "closed_form_words g \<le> length b"
    and "length b < 2 ^ LENGTH('s::len)"
  shows "(\<exists>n :: 's word. gcov_convert_to_gcda cs \<lparr>gi = g, buffer = Some b\<rparr>
           = Some (\<lparr>gi = g, buffer = Some
               (concat (header_record cs g
                  # concat (map (\<lambda>f. function_record cs f
                                # map (\<lambda>(kind, c). counter_group_record cs kind c)
                                    (zip (active_slots g) (ctrs f)))
                            (functions g)))
                @ drop (closed_form_words g) b)\<rparr>, n))
         \<and> sorted_wrt (<) (active_slots g)
         \<and> set (active_slots g) = {kind. kind < GCOV_COUNTERS g \<and> merge g ! kind \<noteq> None}
         \<and> (\<forall>f \<in> set (functions g). length (zip (active_slots g) (ctrs f)) = length (active_slots g))"
proof -
  have len: "length (gcda_stream cs g) = closed_form_words g"
    using assms(1) by (rule length_gcda_stream)
  have "gcov_convert_to_gcda cs \<lparr>gi = g, buffer = Some b\<rparr>
          = Some (\<lparr>gi = g, buffer = Some (gcda_stream cs g @ drop (closed_form_words g) b)\<rparr>,
                  (of_nat (closed_form_words g) :: 's word) * 4)"
    using convert_to_gcda_written [of "\<lparr>gi = g, buffer = Some b\<rparr>" cs, where 's = 's] assms
    by (simp add: len)
  moreover have "\<forall>f \<in> set (functions g). length (zip (active_slots g) (ctrs f)) = length (active_slots g)"
    using assms(1) by (simp add: valid_info_def valid_fn_def list_all_iff)
  ultimately show ?thesis
    using sorted_active_slots [of g] set_active_slots [of g]
    by (simp add: gcda_stream_records)
qed

theorem convert_stream_order_witness:
  "valid_info (scenario_info [None, Some 42, None])
   \<and> closed_form_words (scenario_info [None, Some 42, None]) \<le> length (replicate 16 (0 :: gcov_unsigned_t))
   \<and> length (replicate 16 (0 :: gcov_unsigned_t)) < 2 ^ LENGTH(32)
   \<and> (\<exists>n :: 32 word. gcov_convert_to_gcda gcc_tags
           \<lparr>gi = scenario_info [None, Some 42, None], buffer = Some (replicate 16 0)\<rparr>
         = Some (\<lparr>gi = scenario_info [None, Some 42, None], buffer = Some
               (concat (header_record gcc_tags (scenario_info [None, Some 42, None])
                  # concat (map (\<lambda>f. function_record gcc_tags f
                                # map (\<lambda>(kind, c). counter_group_record gcc_tags kind c)
                                    (zip (active_slots (scenario_info [None, Some 42, None])) (ctrs f)))
                            (functions (scenario_info [None, Some 42, None]))))
                @ drop (closed_form_words (scenario_info [None, Some 42, None])) (replicate 16 0))\<rparr>, n))
   \<and> sorted_wrt (<) (active_slots (scenario_info [None, Some 42, None]))"
proof -
  have h1: "valid_info (scenario_info [None, Some 42, None])" by (rule witness_valid)
  have h2: "closed_form_words (scenario_info [None, Some 42, None])
              \<le> length (replicate 16 (0 :: gcov_unsigned_t))"
    by (simp add: witness_words)
  have h3: "length (replicate 16 (0 :: gcov_unsigned_t)) < 2 ^ LENGTH(32)" by simp
  from convert_stream_order [OF h1 h2 h3, where cs = gcc_tags] h1 h2 h3
  show ?thesis by blast
qed

text \<open>
  C3: word for word, the stream is \<open>[MAGIC_TAG, version]\<close>, stamp, checksum; for
  each function \<open>[FUNCTION_TAG, 3]\<close>, ident, lineno_checksum, cfg_checksum; and for
  each counter group \<open>[COUNTER_TAG(kind), 2 * num]\<close> (the product as a 32-bit word)
  followed by two words per value, low half then high half.
\<close>

theorem convert_record_layouts:
  fixes b :: "gcov_unsigned_t list"
  assumes "valid_info g"
    and "closed_form_words g \<le> length b"
    and "length b < 2 ^ LENGTH('s::len)"
  shows "\<exists>n :: 's word. gcov_convert_to_gcda cs \<lparr>gi = g, buffer = Some b\<rparr>
           = Some (\<lparr>gi = g, buffer = Some
               (([GCOV_DATA_MAGIC cs, version g, stamp g, checksum g]
                 @ concat (map (\<lambda>f.
                     [GCOV_TAG_FUNCTION cs, 3, ident f, lineno_checksum f, cfg_checksum f]
                     @ concat (map (\<lambda>(kind, c).
                         [GCOV_TAG_FOR_COUNTER cs kind, 2 * num c]
                         @ concat (map (\<lambda>v. [of_nat (unat v mod 2 ^ 32),
                                              of_nat (unat v div 2 ^ 32)]) (values c)))
                       (zip (active_slots g) (ctrs f))))
                   (functions g)))
                @ drop (closed_form_words g) b)\<rparr>, n)"
proof -
  have len: "length (gcda_stream cs g) = closed_form_words g"
    using assms(1) by (rule length_gcda_stream)
  have "gcov_convert_to_gcda cs \<lparr>gi = g, buffer = Some b\<rparr>
          = Some (\<lparr>gi = g, buffer = Some (gcda_stream cs g @ drop (closed_form_words g) b)\<rparr>,
                  (of_nat (closed_form_words g) :: 's word) * 4)"
    using convert_to_gcda_written [of "\<lparr>gi = g, buffer = Some b\<rparr>" cs, where 's = 's] assms
    by (simp add: len)
  then show ?thesis
    unfolding gcda_stream_words by blast
qed

theorem convert_record_layouts_witness:
  "valid_info (scenario_info [None, Some 42, None])
   \<and> closed_form_words (scenario_info [None, Some 42, None]) \<le> length (replicate 16 (0 :: gcov_unsigned_t))
   \<and> length (replicate 16 (0 :: gcov_unsigned_t)) < 2 ^ LENGTH(32)
   \<and> (\<exists>n :: 32 word. gcov_convert_to_gcda gcc_tags
           \<lparr>gi = scenario_info [None, Some 42, None], buffer = Some (replicate 16 0)\<rparr>
         = Some (\<lparr>gi = scenario_info [None, Some 42, None], buffer = Some
             [0x67636461, 0x1234, 100, 200, 0x01000000, 3, 7, 0, 0,
              0x01a30000, 4, 5, 0, 0xD964B800, 0x45, 0]\<rparr>, n))"
proof -
  have h1: "valid_info (scenario_info [None, Some 42, None])" by (rule witness_valid)
  have h2: "closed_form_words (scenario_info [None, Some 42, None])
              \<le> length (replicate 16 (0 :: gcov_unsigned_t))"
    by (simp add: witness_words)
  have h3: "length (replicate 16 (0 :: gcov_unsigned_t)) < 2 ^ LENGTH(32)" by simp
  have a: "active_slots (scenario_info [None, Some 42, None]) = [Suc 0]"
    using scenario_active_slots [of "Suc 0" 42 "Suc 0"] by simp
  have r: "replicate 16 (0 :: gcov_unsigned_t) = [0, 0, 0, 0, 0, 0, 0, 0, 0, 0, 0, 0, 0, 0, 0, 0]"
    by (simp add: numeral_eq_Suc)
  from convert_record_layouts [OF h1 h2 h3, where cs = gcc_tags] h1 h2 h3
  show ?thesis
    unfolding witness_words a r
    by (simp add: scenario_info_def scenario_fn_def gcc_tags_def)
qed

text \<open>
  C4: \<open>store_gcov_counter\<close> writes exactly two consecutive 32-bit words at the
  offset, first the low 32 bits of the value (\<open>v mod 2^32\<close>), then its upper 32 bits
  (\<open>v div 2^32\<close>); the rest of the buffer is untouched and the count returned is 2.
\<close>

theorem store_gcov_counter_low_high:
  assumes "buffer m = Some b" and "unat off + 1 < length b"
  shows "\<exists>lo hi. store_gcov_counter m off v
            = Some (m\<lparr>buffer := Some (take (unat off) b @ [lo, hi] @ drop (unat off + 2) b)\<rparr>, 2)
          \<and> unat lo = unat v mod 2 ^ 32 \<and> unat hi = unat v div 2 ^ 32"
proof -
  let ?lo = "ucast (v AND 0xffffffff) :: gcov_unsigned_t"
  let ?hi = "ucast (drop_bit 32 v) :: gcov_unsigned_t"
  have m: "(0xffffffff :: gcov_type) = mask 32" by (simp add: mask_eq_exp_minus_1)
  have lo: "unat ?lo = unat v mod 2 ^ 32"
    unfolding m
    by (simp add: unsigned_ucast_eq unsigned_take_bit_eq take_bit_eq_mod unat_mod_distrib
          flip: take_bit_eq_mask)
  have "unat v < 2 ^ 64" using unsigned_less [of v] by simp
  then have "unat v div 2 ^ 32 < 2 ^ 32" by (simp add: less_mult_imp_div_less)
  then have hi: "unat ?hi = unat v div 2 ^ 32"
    by (simp add: unsigned_ucast_eq unsigned_drop_bit_eq take_bit_eq_mod drop_bit_eq_div
          unat_div_distrib)
  have "store_gcov_counter m off v
          = Some (m\<lparr>buffer := Some (take (unat off) b @ [?lo, ?hi] @ drop (unat off + 2) b)\<rparr>, 2)"
    using assms update_two_conv [of "unat off" b]
    by (simp add: store_gcov_counter_def)
  with lo hi show ?thesis by blast
qed

theorem store_gcov_counter_low_high_witness:
  "buffer \<lparr>gi = scenario_info [Some 42], buffer = Some [9, 9, 9, 9]\<rparr> = Some [9, 9, 9, 9]
   \<and> unat (1 :: 32 word) + 1 < length [9 :: gcov_unsigned_t, 9, 9, 9]
   \<and> (\<exists>lo hi. store_gcov_counter \<lparr>gi = scenario_info [Some 42], buffer = Some [9, 9, 9, 9]\<rparr>
                  (1 :: 32 word) 300000000000
            = Some (\<lparr>gi = scenario_info [Some 42], buffer = Some [9, lo, hi, 9]\<rparr>, 2)
          \<and> unat lo = 300000000000 mod 2 ^ 32 \<and> unat hi = 300000000000 div 2 ^ 32)"
  using store_gcov_counter_low_high
    [of "\<lparr>gi = scenario_info [Some 42], buffer = Some [9, 9, 9, 9]\<rparr>" "[9, 9, 9, 9]"
        "1 :: 32 word" 300000000000]
  by simp

text \<open>
  C5: for a structurally valid data set, \<open>gcov_clear_counters\<close> returns, and
  afterwards every value of every counter group of every function is 0, while
  version, next, stamp, checksum, filename, the merge array, \<open>n_functions\<close>, every
  function's key, ident and two checksums and every group's \<open>num\<close> are unchanged;
  the function array, every \<open>ctrs\<close> array and every value array keep their lengths,
  and the buffer is untouched.
\<close>

theorem clear_counters_frame:
  assumes "valid_info (gi m)"
  shows "\<exists>m'. gcov_clear_counters m = Some m'
     \<and> buffer m' = buffer m
     \<and> version (gi m') = version (gi m) \<and> next (gi m') = next (gi m)
     \<and> stamp (gi m') = stamp (gi m) \<and> checksum (gi m') = checksum (gi m)
     \<and> filename (gi m') = filename (gi m) \<and> merge (gi m') = merge (gi m)
     \<and> n_functions (gi m') = n_functions (gi m)
     \<and> length (functions (gi m')) = length (functions (gi m))
     \<and> (\<forall>i < length (functions (gi m)).
           key (functions (gi m') ! i) = key (functions (gi m) ! i)
         \<and> ident (functions (gi m') ! i) = ident (functions (gi m) ! i)
         \<and> lineno_checksum (functions (gi m') ! i) = lineno_checksum (functions (gi m) ! i)
         \<and> cfg_checksum (functions (gi m') ! i) = cfg_checksum (functions (gi m) ! i)
         \<and> length (ctrs (functions (gi m') ! i)) = length (ctrs (functions (gi m) ! i))
         \<and> (\<forall>k < length (ctrs (functions (gi m) ! i)).
               num (ctrs (functions (gi m') ! i) ! k) = num (ctrs (functions (gi m) ! i) ! k)
             \<and> length (values (ctrs (functions (gi m') ! i) ! k))
                 = length (values (ctrs (functions (gi m) ! i) ! k))
             \<and> (\<forall>v \<in> set (values (ctrs (functions (gi m') ! i) ! k)). v = 0)))"
proof -
  have "gcov_clear_counters m = Some (m\<lparr>gi := zero_info (gi m)\<rparr>)"
    using assms by (rule clear_counters_zero)
  then show ?thesis
    by (simp add: zero_info_def zero_fn_def zero_ctr_def)
qed

theorem clear_counters_frame_witness:
  "valid_info (gi \<lparr>gi = scenario_info [None, Some 42, None], buffer = None\<rparr>)
   \<and> (\<exists>m'. gcov_clear_counters \<lparr>gi = scenario_info [None, Some 42, None], buffer = None\<rparr> = Some m'
          \<and> buffer m' = None
          \<and> version (gi m') = 0x1234 \<and> stamp (gi m') = 100 \<and> checksum (gi m') = 200
          \<and> ident (functions (gi m') ! 0) = 7
          \<and> num (ctrs (functions (gi m') ! 0) ! 0) = 2
          \<and> length (values (ctrs (functions (gi m') ! 0) ! 0)) = 2
          \<and> (\<forall>v \<in> set (values (ctrs (functions (gi m') ! 0) ! 0)). v = 0))"
proof -
  let ?m = "\<lparr>gi = scenario_info [None, Some 42, None], buffer = None\<rparr>"
  have h1: "valid_info (gi ?m)" by (simp add: witness_valid)
  from clear_counters_frame [OF h1] h1 show ?thesis
    by (auto simp: scenario_info_def scenario_fn_def)
qed

text \<open>
  C6: for a structurally valid data set, \<open>gcov_convert_to_gcda\<close> writes, after
  each function record, the counter records obtained by going through the slots of
  the merge array in ascending order: a slot with a null merge entry contributes
  no words and consumes no counter group, and an active slot contributes the
  record of the group whose index is the number of active slots below it. The
  count returned, with or without a buffer, has the summand 0 for every unused
  slot. \<open>gcov_clear_counters\<close> zeroes, for every function and every active slot,
  that same group, and keeps the merge array and the array lengths. Every
  function has exactly one group per active slot, the \<open>k\<close>-th group belongs to the
  \<open>k\<close>-th active slot in ascending order, and inside both loops the iteration for
  an unused slot leaves the memory, the position and \<open>ci_ptr\<close> as they are.
\<close>

theorem absent_slots_skipped:
  fixes b :: "gcov_unsigned_t list"
  assumes "valid_info g"
    and "closed_form_words g \<le> length b"
    and "length b < 2 ^ LENGTH('s::len)"
  shows "(\<exists>n :: 's word.
            gcov_convert_to_gcda cs \<lparr>gi = g, buffer = Some b\<rparr>
              = Some (\<lparr>gi = g, buffer = Some
                  ((header_record cs g
                    @ concat (map (\<lambda>f. function_record cs f
                        @ concat (map (\<lambda>kind. if merge g ! kind = None then []
                                              else counter_group_record cs kind
                                                     (ctrs f ! length (active_below g kind)))
                                    [0..<GCOV_COUNTERS g]))
                       (functions g)))
                   @ drop (closed_form_words g) b)\<rparr>, n)
          \<and> gcov_convert_to_gcda cs \<lparr>gi = g, buffer = None\<rparr>
              = Some (\<lparr>gi = g, buffer = None\<rparr>, n)
          \<and> n = of_nat (4 * (4 + (\<Sum>f\<leftarrow>functions g. 5 +
                  (\<Sum>kind\<leftarrow>[0..<GCOV_COUNTERS g]. if merge g ! kind = None then 0
                     else 2 + 2 * unat (num (ctrs f ! length (active_below g kind))))))))
       \<and> (\<exists>g'. gcov_clear_counters \<lparr>gi = g, buffer = Some b\<rparr> = Some \<lparr>gi = g', buffer = Some b\<rparr>
            \<and> merge g' = merge g
            \<and> length (functions g') = length (functions g)
            \<and> (\<forall>i < length (functions g).
                  length (ctrs (functions g' ! i)) = length (ctrs (functions g ! i))
                \<and> (\<forall>kind < GCOV_COUNTERS g. merge g ! kind \<noteq> None \<longrightarrow>
                      length (active_below g kind) < length (ctrs (functions g ! i))
                    \<and> values (ctrs (functions g' ! i) ! length (active_below g kind))
                        = replicate (length (values (ctrs (functions g ! i)
                                                       ! length (active_below g kind)))) 0)))
       \<and> (\<forall>f \<in> set (functions g). length (ctrs f) = length (active_slots g))
       \<and> (\<forall>k < length (active_slots g). length (active_below g (active_slots g ! k)) = k)
       \<and> sorted_wrt (<) (active_slots g)
       \<and> (\<forall>ct_idx < GCOV_COUNTERS g. merge g ! ct_idx = None \<longrightarrow>
            (\<forall>fi bf (pos :: 's word) ci.
               convert_counter cs fi ct_idx (\<lparr>gi = g, buffer = bf\<rparr>, pos, ci)
                 = Some (\<lparr>gi = g, buffer = bf\<rparr>, pos, ci)
             \<and> clear_counter fi ct_idx (\<lparr>gi = g, buffer = bf\<rparr>, ci)
                 = Some (\<lparr>gi = g, buffer = bf\<rparr>, ci)))"
proof -
  let ?n = "(of_nat (closed_form_words g) :: 's word) * 4"
  have len: "length (gcda_stream cs g) = closed_form_words g"
    using assms(1) by (rule length_gcda_stream)
  have enc: "gcov_convert_to_gcda cs \<lparr>gi = g, buffer = Some b\<rparr>
          = Some (\<lparr>gi = g, buffer = Some (gcda_stream cs g @ drop (closed_form_words g) b)\<rparr>, ?n)"
    using convert_to_gcda_written [of "\<lparr>gi = g, buffer = Some b\<rparr>" cs, where 's = 's] assms
    by (simp add: len)
  have null: "gcov_convert_to_gcda cs \<lparr>gi = g, buffer = None\<rparr> = Some (\<lparr>gi = g, buffer = None\<rparr>, ?n)"
    using convert_to_gcda_written [of "\<lparr>gi = g, buffer = None\<rparr>" cs, where 's = 's] assms(1)
    by (simp add: len)
  have n: "?n = of_nat (4 * closed_form_words g)" by simp
  have A: "\<exists>n :: 's word.
            gcov_convert_to_gcda cs \<lparr>gi = g, buffer = Some b\<rparr>
              = Some (\<lparr>gi = g, buffer = Some
                  ((header_record cs g
                    @ concat (map (\<lambda>f. function_record cs f
                        @ concat (map (\<lambda>kind. if merge g ! kind = None then []
                                              else counter_group_record cs kind
                                                     (ctrs f ! length (active_below g kind)))
                                    [0..<GCOV_COUNTERS g]))
                       (functions g)))
                   @ drop (closed_form_words g) b)\<rparr>, n)
          \<and> gcov_convert_to_gcda cs \<lparr>gi = g, buffer = None\<rparr>
              = Some (\<lparr>gi = g, buffer = None\<rparr>, n)
          \<and> n = of_nat (4 * (4 + (\<Sum>f\<leftarrow>functions g. 5 +
                  (\<Sum>kind\<leftarrow>[0..<GCOV_COUNTERS g]. if merge g ! kind = None then 0
                     else 2 + 2 * unat (num (ctrs f ! length (active_below g kind)))))))"
    using enc null n
    unfolding gcda_stream_slots [OF assms(1)] closed_form_words_slots [OF assms(1)]
    by blast
  have clr: "gcov_clear_counters \<lparr>gi = g, buffer = Some b\<rparr>
               = Some \<lparr>gi = zero_info g, buffer = Some b\<rparr>"
    using clear_counters_zero [of "\<lparr>gi = g, buffer = Some b\<rparr>"] assms(1) by simp
  have grp: "length (active_below g kind) < length (ctrs (functions g ! i))
           \<and> values (ctrs (functions (zero_info g) ! i) ! length (active_below g kind))
               = replicate (length (values (ctrs (functions g ! i)
                                              ! length (active_below g kind)))) 0"
    if "i < length (functions g)" and "kind < GCOV_COUNTERS g" and "merge g ! kind \<noteq> None"
    for i kind
  proof -
    have "functions g ! i \<in> set (functions g)" using that(1) by simp
    from active_group_index [OF assms(1) this that(2,3)] that(1)
    show ?thesis by (simp add: zero_fn_def zero_ctr_def)
  qed
  have B: "\<exists>g'. gcov_clear_counters \<lparr>gi = g, buffer = Some b\<rparr> = Some \<lparr>gi = g', buffer = Some b\<rparr>
            \<and> merge g' = merge g
            \<and> length (functions g') = length (functions g)
            \<and> (\<forall>i < length (functions g).
                  length (ctrs (functions g' ! i)) = length (ctrs (functions g ! i))
                \<and> (\<forall>kind < GCOV_COUNTERS g. merge g ! kind \<noteq> None \<longrightarrow>
                      length (active_below g kind) < length (ctrs (functions g ! i))
                    \<and> values (ctrs (functions g' ! i) ! length (active_below g kind))
                        = replicate (length (values (ctrs (functions g ! i)
                                                       ! length (active_below g kind)))) 0))"
  proof (intro exI [of _ "zero_info g"] conjI allI impI)
    show "gcov_clear_counters \<lparr>gi = g, buffer = Some b\<rparr>
            = Some \<lparr>gi = zero_info g, buffer = Some b\<rparr>" by (rule clr)
    show "merge (zero_info g) = merge g" by simp
    show "length (functions (zero_info g)) = length (functions g)" by simp
    show "length (ctrs (functions (zero_info g) ! i)) = length (ctrs (functions g ! i))"
      if "i < length (functions g)" for i
      using that by (simp add: zero_fn_def)
    show "length (active_below g kind) < length (ctrs (functions g ! i))"
      if "i < length (functions g)" and "kind < GCOV_COUNTERS g" and "merge g ! kind \<noteq> None"
      for i kind
      using grp [OF that] by simp
    show "values (ctrs (functions (zero_info g) ! i) ! length (active_below g kind))
               = replicate (length (values (ctrs (functions g ! i)
                                              ! length (active_below g kind)))) 0"
      if "i < length (functions g)" and "kind < GCOV_COUNTERS g" and "merge g ! kind \<noteq> None"
      for i kind
      using grp [OF that] by simp
  qed
  have C: "\<forall>f \<in> set (functions g). length (ctrs f) = length (active_slots g)"
    using assms(1) by (simp add: valid_info_def valid_fn_def list_all_iff)
  have D: "\<forall>k < length (active_slots g). length (active_below g (active_slots g ! k)) = k"
    by (simp add: active_slots_index)
  have E: "sorted_wrt (<) (active_slots g)" by (rule sorted_active_slots)
  have F: "\<forall>ct_idx < GCOV_COUNTERS g. merge g ! ct_idx = None \<longrightarrow>
            (\<forall>fi bf (pos :: 's word) ci.
               convert_counter cs fi ct_idx (\<lparr>gi = g, buffer = bf\<rparr>, pos, ci)
                 = Some (\<lparr>gi = g, buffer = bf\<rparr>, pos, ci)
             \<and> clear_counter fi ct_idx (\<lparr>gi = g, buffer = bf\<rparr>, ci)
                 = Some (\<lparr>gi = g, buffer = bf\<rparr>, ci))"
    by (simp add: convert_counter_skip clear_counter_skip)
  show ?thesis by (intro conjI A B C D E F)
qed

theorem absent_slots_skipped_witness:
  "valid_info mixed_info
   \<and> closed_form_words mixed_info \<le> length (replicate 32 (0 :: gcov_unsigned_t))
   \<and> length (replicate 32 (0 :: gcov_unsigned_t)) < 2 ^ LENGTH(32)
   \<and> (\<exists>n :: 32 word.
         gcov_convert_to_gcda gcc_tags \<lparr>gi = mixed_info, buffer = Some (replicate 32 0)\<rparr>
           = Some (\<lparr>gi = mixed_info, buffer = Some
               [0x67636461, 0x1234, 100, 200,
                0x01000000, 3, 7, 0, 0,
                0x01a10000, 2, 5, 0,
                0x01a50000, 4, 6, 0, 0xD964B800, 0x45,
                0x01000000, 3, 8, 1, 2,
                0x01a10000, 0,
                0x01a50000, 2, 9, 0,
                0, 0]\<rparr>, n)
       \<and> gcov_convert_to_gcda gcc_tags \<lparr>gi = mixed_info, buffer = None\<rparr>
           = Some (\<lparr>gi = mixed_info, buffer = None\<rparr>, n)
       \<and> n = 120)
   \<and> (\<exists>g'. gcov_clear_counters \<lparr>gi = mixed_info, buffer = Some (replicate 32 0)\<rparr>
               = Some \<lparr>gi = g', buffer = Some (replicate 32 0)\<rparr>
          \<and> values (ctrs (functions g' ! 0) ! 0) = [0]
          \<and> values (ctrs (functions g' ! 0) ! 1) = [0, 0]
          \<and> values (ctrs (functions g' ! 1) ! 1) = [0])"
proof -
  have h1: "valid_info mixed_info" by (rule mixed_valid)
  have h2: "closed_form_words mixed_info \<le> length (replicate 32 (0 :: gcov_unsigned_t))"
    by (simp add: mixed_words)
  have h3: "length (replicate 32 (0 :: gcov_unsigned_t)) < 2 ^ LENGTH(32)" by simp
  note t = absent_slots_skipped [OF h1 h2 h3, where cs = gcc_tags]
  have cw: "counter_words 5 = [5, 0]" "counter_words 6 = [6, 0]" "counter_words 9 = [9, 0]"
    by (simp_all add: counter_words_def)
  have r: "drop 30 (replicate 32 (0 :: gcov_unsigned_t)) = [0, 0]"
    by (simp add: numeral_eq_Suc)
  have enc: "\<exists>n :: 32 word.
         gcov_convert_to_gcda gcc_tags \<lparr>gi = mixed_info, buffer = Some (replicate 32 0)\<rparr>
           = Some (\<lparr>gi = mixed_info, buffer = Some
               [0x67636461, 0x1234, 100, 200,
                0x01000000, 3, 7, 0, 0,
                0x01a10000, 2, 5, 0,
                0x01a50000, 4, 6, 0, 0xD964B800, 0x45,
                0x01000000, 3, 8, 1, 2,
                0x01a10000, 0,
                0x01a50000, 2, 9, 0,
                0, 0]\<rparr>, n)
       \<and> gcov_convert_to_gcda gcc_tags \<lparr>gi = mixed_info, buffer = None\<rparr>
           = Some (\<lparr>gi = mixed_info, buffer = None\<rparr>, n)
       \<and> n = 120"
    using t [THEN conjunct1]
    unfolding mixed_counters mixed_upt mixed_words r
    by (simp add: mixed_active_below mixed_fields header_record_def function_record_def
          counter_group_record_def cw counter_words_300000000000 gcc_tags_def)
  have clr: "\<exists>g'. gcov_clear_counters \<lparr>gi = mixed_info, buffer = Some (replicate 32 0)\<rparr>
               = Some \<lparr>gi = g', buffer = Some (replicate 32 0)\<rparr>
          \<and> values (ctrs (functions g' ! 0) ! 0) = [0]
          \<and> values (ctrs (functions g' ! 0) ! 1) = [0, 0]
          \<and> values (ctrs (functions g' ! 1) ! 1) = [0]"
  proof -
    from t [THEN conjunct2, THEN conjunct1] obtain g' where
      1: "gcov_clear_counters \<lparr>gi = mixed_info, buffer = Some (replicate 32 0)\<rparr>
               = Some \<lparr>gi = g', buffer = Some (replicate 32 0)\<rparr>"
      and 2: "\<forall>i < length (functions mixed_info).
                (\<forall>kind < GCOV_COUNTERS mixed_info. merge mixed_info ! kind \<noteq> None \<longrightarrow>
                    values (ctrs (functions g' ! i) ! length (active_below mixed_info kind))
                        = replicate (length (values (ctrs (functions mixed_info ! i)
                                               ! length (active_below mixed_info kind)))) 0)"
      by blast
    have a: "values (ctrs (functions g' ! 0) ! 0) = [0]"
      using 2 [rule_format, of 0 0] by (simp add: mixed_counters mixed_active_below mixed_fields)
    have b: "values (ctrs (functions g' ! 0) ! 1) = [0, 0]"
      using 2 [rule_format, of 0 2]
      by (simp add: mixed_counters mixed_active_below mixed_fields numeral_eq_Suc)
    have c: "values (ctrs (functions g' ! 1) ! 1) = [0]"
      using 2 [rule_format, of 1 2] by (simp add: mixed_counters mixed_active_below mixed_fields)
    from 1 a b c show ?thesis by blast
  qed
  from h1 h2 h3 enc clr show ?thesis by (intro conjI)
qed

text \<open>
  C7: for a structurally valid data set (and a buffer with room, if any),
  \<open>gcov_convert_to_gcda\<close> returns with the data set unchanged: every field of
  \<open>gcov_info\<close>, of every function and of every counter group, the counter values
  included; without a buffer the whole memory is unchanged. Moreover, whenever
  the function returns at all, on any memory, the data set is unchanged.
\<close>

theorem convert_no_side_effect:
  assumes "valid_info (gi m)"
    and "room (2 ^ LENGTH('s::len)) m (closed_form_words (gi m))"
  shows "(\<exists>m' (n :: 's word). gcov_convert_to_gcda cs m = Some (m', n)
            \<and> gi m' = gi m \<and> (buffer m = None \<longrightarrow> m' = m))
         \<and> (\<forall>m0 m1 (n1 :: 's word).
               gcov_convert_to_gcda cs m0 = Some (m1, n1) \<longrightarrow> gi m1 = gi m0)"
proof -
  have len: "length (gcda_stream cs (gi m)) = closed_form_words (gi m)"
    using assms(1) by (rule length_gcda_stream)
  have run: "gcov_convert_to_gcda cs m
          = Some (written m (gcda_stream cs (gi m)),
                  (of_nat (closed_form_words (gi m)) :: 's word) * 4)"
    using convert_to_gcda_written [of m cs, where 's = 's] assms by (simp add: len)
  have "written m ws = m" if "buffer m = None" for ws
    using that by (simp add: written_def)
  with run show ?thesis by (auto dest: convert_to_gcda_gi)
qed

theorem convert_no_side_effect_witness:
  "valid_info (gi \<lparr>gi = scenario_info [None, Some 42, None], buffer = Some (replicate 15 0)\<rparr>)
   \<and> room (2 ^ LENGTH(32)) \<lparr>gi = scenario_info [None, Some 42, None], buffer = Some (replicate 15 0)\<rparr>
        (closed_form_words
           (gi \<lparr>gi = scenario_info [None, Some 42, None], buffer = Some (replicate 15 0)\<rparr>))
   \<and> (\<exists>m' (n :: 32 word).
         gcov_convert_to_gcda gcc_tags
           \<lparr>gi = scenario_info [None, Some 42, None], buffer = Some (replicate 15 0)\<rparr> = Some (m', n)
         \<and> gi m' = scenario_info [None, Some 42, None])"
proof -
  let ?m = "\<lparr>gi = scenario_info [None, Some 42, None], buffer = Some (replicate 15 0)\<rparr>"
  have h1: "valid_info (gi ?m)" by (simp add: witness_valid)
  have h2: "room (2 ^ LENGTH(32)) ?m (closed_form_words (gi ?m))" by (simp add: witness_words)
  from convert_no_side_effect [OF h1 h2, of gcc_tags] h1 h2
  show ?thesis by auto
qed

text \<open>
  C8, as amended: the data set with version \<open>0x1234\<close>, stamp 100, checksum 200,
  exactly one active counter slot \<open>k\<close> and one function with identity 7, zero
  checksums and the counter values 5 and 300000000000 encodes to
  \<open>[MAGIC_TAG, 0x1234], 100, 200, [FUNCTION_TAG, 3], 7, 0, 0, [COUNTER_TAG(k), 4],
  5, 0, 0xD964B800, 0x45\<close>, and the count returned is 15 * 4 bytes, with and
  without a buffer. The low word of 300000000000 = \<open>0x45D964B800\<close> is
  \<open>0xD964B800\<close>; the word \<open>0xD693A400\<close> is not what the encoder writes.
\<close>

theorem scenario_encoding:
  "gcov_convert_to_gcda cs
     \<lparr>gi = scenario_info (replicate k None @ Some fn # replicate j None),
      buffer = Some (replicate 15 0)\<rparr>
   = Some (\<lparr>gi = scenario_info (replicate k None @ Some fn # replicate j None),
            buffer = Some [GCOV_DATA_MAGIC cs, 0x1234, 100, 200,
                           GCOV_TAG_FUNCTION cs, 3, 7, 0, 0,
                           GCOV_TAG_FOR_COUNTER cs k, 4, 5, 0, 0xD964B800, 0x45]\<rparr>,
           (15 * 4) :: 32 word)
   \<and> gcov_convert_to_gcda cs
     \<lparr>gi = scenario_info (replicate k None @ Some fn # replicate j None), buffer = None\<rparr>
   = Some (\<lparr>gi = scenario_info (replicate k None @ Some fn # replicate j None), buffer = None\<rparr>,
           (15 * 4) :: 32 word)"
  using scenario_buffer [of cs k fn j, where 's = 32] scenario_null [of cs k fn j, where 's = 32]
  by simp

theorem scenario_encoding_counterexample:
  "gcov_convert_to_gcda gcc_tags
     \<lparr>gi = scenario_info [Some 42], buffer = Some (replicate 15 0)\<rparr>
   \<noteq> Some (\<lparr>gi = scenario_info [Some 42],
            buffer = Some [GCOV_DATA_MAGIC gcc_tags, 0x1234, 100, 200,
                           GCOV_TAG_FUNCTION gcc_tags, 3, 7, 0, 0,
                           GCOV_TAG_FOR_COUNTER gcc_tags 0, 4, 5, 0, 0xD693A400, 0x45]\<rparr>,
           (15 * 4) :: 32 word)"
  using scenario_buffer [of gcc_tags 0 42 0, where 's = 32]
  by simp

text \<open>
  C9: for a structurally valid data set, the reset returns and leaves the
  buffer alone; encoding afterwards returns the same count as encoding before the
  reset, and the stream has the same header record, function records, counter
  tags and lengths, with every counter value emitted as two zero words.
\<close>

theorem reset_then_encode:
  fixes b :: "gcov_unsigned_t list"
  assumes "valid_info g"
    and "closed_form_words g \<le> length b"
    and "length b < 2 ^ LENGTH('s::len)"
  shows "\<exists>g' zs (n :: 's word).
           gcov_clear_counters \<lparr>gi = g, buffer = Some b\<rparr> = Some \<lparr>gi = g', buffer = Some b\<rparr>
         \<and> gcov_convert_to_gcda cs \<lparr>gi = g', buffer = Some b\<rparr>
             = Some (\<lparr>gi = g', buffer = Some (zs @ drop (closed_form_words g) b)\<rparr>, n)
         \<and> gcov_convert_to_gcda cs \<lparr>gi = g, buffer = Some b\<rparr>
             = Some (\<lparr>gi = g, buffer = Some (gcda_stream cs g @ drop (closed_form_words g) b)\<rparr>, n)
         \<and> length zs = length (gcda_stream cs g)
         \<and> zs = header_record cs g
                @ concat (map (\<lambda>f. function_record cs f
                     @ concat (map (\<lambda>(kind, c). [GCOV_TAG_FOR_COUNTER cs kind, 2 * num c]
                                       @ replicate (2 * length (values c)) 0)
                                (zip (active_slots g) (ctrs f))))
                   (functions g))"
proof -
  let ?m = "\<lparr>gi = g, buffer = Some b\<rparr>" and ?m' = "\<lparr>gi = zero_info g, buffer = Some b\<rparr>"
  let ?n = "(of_nat (closed_form_words g) :: 's word) * 4"
  have len: "length (gcda_stream cs g) = closed_form_words g"
    using assms(1) by (rule length_gcda_stream)
  have len': "length (gcda_stream cs (zero_info g)) = closed_form_words g"
    by (simp add: length_zero_gcda_stream len)
  have v': "valid_info (zero_info g)" using assms(1) by (rule valid_info_zero)
  have 1: "gcov_clear_counters ?m = Some ?m'"
    using clear_counters_zero [of ?m] assms(1) by simp
  have 2: "gcov_convert_to_gcda cs ?m'
         = Some (\<lparr>gi = zero_info g,
                  buffer = Some (gcda_stream cs (zero_info g) @ drop (closed_form_words g) b)\<rparr>, ?n)"
    using convert_to_gcda_written [of ?m' cs, where 's = 's] v' assms(2,3)
    by (simp add: len')
  have 3: "gcov_convert_to_gcda cs ?m
         = Some (\<lparr>gi = g, buffer = Some (gcda_stream cs g @ drop (closed_form_words g) b)\<rparr>, ?n)"
    using convert_to_gcda_written [of ?m cs, where 's = 's] assms
    by (simp add: len)
  show ?thesis
  proof (intro exI conjI)
    show "gcov_clear_counters ?m = Some ?m'" by (rule 1)
    show "gcov_convert_to_gcda cs ?m'
         = Some (\<lparr>gi = zero_info g,
                  buffer = Some (gcda_stream cs (zero_info g) @ drop (closed_form_words g) b)\<rparr>, ?n)"
      by (rule 2)
    show "gcov_convert_to_gcda cs ?m
         = Some (\<lparr>gi = g, buffer = Some (gcda_stream cs g @ drop (closed_form_words g) b)\<rparr>, ?n)"
      by (rule 3)
    show "length (gcda_stream cs (zero_info g)) = length (gcda_stream cs g)"
      by (rule length_zero_gcda_stream)
    show "gcda_stream cs (zero_info g)
          = header_record cs g
            @ concat (map (\<lambda>f. function_record cs f
                 @ concat (map (\<lambda>(kind, c). [GCOV_TAG_FOR_COUNTER cs kind, 2 * num c]
                                   @ replicate (2 * length (values c)) 0)
                            (zip (active_slots g) (ctrs f))))
               (functions g))"
      by (rule zero_gcda_stream)
  qed
qed

theorem reset_then_encode_witness:
  "valid_info (scenario_info [None, Some 42, None])
   \<and> closed_form_words (scenario_info [None, Some 42, None]) \<le> length (replicate 15 (0 :: gcov_unsigned_t))
   \<and> length (replicate 15 (0 :: gcov_unsigned_t)) < 2 ^ LENGTH(32)
   \<and> (\<exists>g' (n :: 32 word).
         gcov_clear_counters \<lparr>gi = scenario_info [None, Some 42, None], buffer = Some (replicate 15 0)\<rparr>
           = Some \<lparr>gi = g', buffer = Some (replicate 15 0)\<rparr>
       \<and> gcov_convert_to_gcda gcc_tags \<lparr>gi = g', buffer = Some (replicate 15 0)\<rparr>
           = Some (\<lparr>gi = g', buffer = Some
               [0x67636461, 0x1234, 100, 200, 0x01000000, 3, 7, 0, 0,
                0x01a30000, 4, 0, 0, 0, 0]\<rparr>, n)
       \<and> gcov_convert_to_gcda gcc_tags
             \<lparr>gi = scenario_info [None, Some 42, None], buffer = Some (replicate 15 0)\<rparr>
           = Some (\<lparr>gi = scenario_info [None, Some 42, None], buffer = Some
               [0x67636461, 0x1234, 100, 200, 0x01000000, 3, 7, 0, 0,
                0x01a30000, 4, 5, 0, 0xD964B800, 0x45]\<rparr>, n))"
proof -
  have h1: "valid_info (scenario_info [None, Some 42, None])" by (rule witness_valid)
  have h2: "closed_form_words (scenario_info [None, Some 42, None])
              \<le> length (replicate 15 (0 :: gcov_unsigned_t))"
    by (simp add: witness_words)
  have h3: "length (replicate 15 (0 :: gcov_unsigned_t)) < 2 ^ LENGTH(32)" by simp
  have a: "active_slots (scenario_info [None, Some 42, None]) = [Suc 0]"
    using scenario_active_slots [of "Suc 0" 42 "Suc 0"] by simp
  from reset_then_encode [OF h1 h2 h3, where cs = gcc_tags]
  obtain g' zs and n :: "32 word" where
    1: "gcov_clear_counters \<lparr>gi = scenario_info [None, Some 42, None], buffer = Some (replicate 15 0)\<rparr>
           = Some \<lparr>gi = g', buffer = Some (replicate 15 0)\<rparr>"
    and 2: "gcov_convert_to_gcda gcc_tags \<lparr>gi = g', buffer = Some (replicate 15 0)\<rparr>
           = Some (\<lparr>gi = g', buffer = Some
                (zs @ drop (closed_form_words (scenario_info [None, Some 42, None])) (replicate 15 0))\<rparr>, n)"
    and 3: "gcov_convert_to_gcda gcc_tags
             \<lparr>gi = scenario_info [None, Some 42, None], buffer = Some (replicate 15 0)\<rparr>
           = Some (\<lparr>gi = scenario_info [None, Some 42, None], buffer = Some
                (gcda_stream gcc_tags (scenario_info [None, Some 42, None])
                 @ drop (closed_form_words (scenario_info [None, Some 42, None])) (replicate 15 0))\<rparr>, n)"
    and zs: "zs = header_record gcc_tags (scenario_info [None, Some 42, None])
                @ concat (map (\<lambda>f. function_record gcc_tags f
                     @ concat (map (\<lambda>(kind, c). [GCOV_TAG_FOR_COUNTER gcc_tags kind, 2 * num c]
                                       @ replicate (2 * length (values c)) 0)
                                (zip (active_slots (scenario_info [None, Some 42, None])) (ctrs f))))
                   (functions (scenario_info [None, Some 42, None])))"
    by blast
  have zs': "zs = [0x67636461, 0x1234, 100, 200, 0x01000000, 3, 7, 0, 0, 0x01a30000, 4, 0, 0, 0, 0]"
    unfolding zs a
    by (simp add: header_record_def function_record_def scenario_info_def scenario_fn_def
          gcc_tags_def numeral_eq_Suc)
  have ws: "gcda_stream gcc_tags (scenario_info [None, Some 42, None])
         = [0x67636461, 0x1234, 100, 200, 0x01000000, 3, 7, 0, 0, 0x01a30000, 4, 5, 0, 0xD964B800, 0x45]"
    by (simp add: witness_stream gcc_tags_def)
  from 1 2 3 h1 h2 h3 show ?thesis
    unfolding zs' ws witness_words by auto
qed

text \<open>
  C10: for a structurally valid data set, the value returned is the closed
  form \<open>4 * (4 + \<Sum>functions (5 + \<Sum>active slots (2 + 2 * num)))\<close> as a \<^verbatim>\<open>size_t\<close>,
  which does not mention the counter values; it is that number whenever the number
  fits \<^verbatim>\<open>size_t\<close>, and it is 16 for a data set without functions.
\<close>

theorem convert_size_closed_form:
  assumes "valid_info (gi m)"
    and "room (2 ^ LENGTH('s::len)) m (closed_form_words (gi m))"
  shows "\<exists>m' (n :: 's word).
           gcov_convert_to_gcda cs m = Some (m', n)
         \<and> n = of_nat (4 * closed_form_words (gi m))
         \<and> (4 * closed_form_words (gi m) < 2 ^ LENGTH('s) \<longrightarrow> unat n = 4 * closed_form_words (gi m))
         \<and> (functions (gi m) = [] \<longrightarrow> n = 16)"
proof -
  let ?W = "closed_form_words (gi m)"
  have len: "length (gcda_stream cs (gi m)) = ?W"
    using assms(1) by (rule length_gcda_stream)
  have run: "gcov_convert_to_gcda cs m
          = Some (written m (gcda_stream cs (gi m)), (of_nat ?W :: 's word) * 4)"
    using convert_to_gcda_written [of m cs, where 's = 's] assms by (simp add: len)
  have n: "(of_nat ?W :: 's word) * 4 = of_nat (4 * ?W)" by simp
  have u: "unat (of_nat (4 * ?W) :: 's word) = 4 * ?W" if "4 * ?W < 2 ^ LENGTH('s)"
    using that by (simp only: unat_of_nat mod_less)
  have z: "(of_nat (4 * ?W) :: 's word) = 16" if "functions (gi m) = []"
    using that by (simp add: closed_form_words_def)
  from run n u z show ?thesis by auto
qed

theorem convert_size_closed_form_witness:
  "valid_info (gi \<lparr>gi = scenario_info [None, Some 42, None], buffer = None\<rparr>)
   \<and> room (2 ^ LENGTH(32)) \<lparr>gi = scenario_info [None, Some 42, None], buffer = None\<rparr>
        (closed_form_words (gi \<lparr>gi = scenario_info [None, Some 42, None], buffer = None\<rparr>))
   \<and> closed_form_words (scenario_info [None, Some 42, None]) = 15
   \<and> (\<exists>m'. gcov_convert_to_gcda gcc_tags \<lparr>gi = scenario_info [None, Some 42, None], buffer = None\<rparr>
              = Some (m', 60 :: 32 word))"
proof -
  let ?m = "\<lparr>gi = scenario_info [None, Some 42, None], buffer = None\<rparr>"
  have h1: "valid_info (gi ?m)" by (simp add: witness_valid)
  have h2: "room (2 ^ LENGTH(32)) ?m (closed_form_words (gi ?m))" by simp
  from convert_size_closed_form [OF h1 h2, of gcc_tags] h1 h2
  show ?thesis by (auto simp: witness_words)
qed

end
